theory Spec2Isabelle
  imports Main
begin

section \<open>The lexer interface consumed by the token cursor\<close>

text \<open>
  \<^verbatim>\<open>token_iterator.cpp\<close> is written against libclang, which is not part of the repository.
  The functions of libclang that the source calls are therefore parameters of the model,
  collected in one record; the field names are the names of the C functions. Locations
  (\<^verbatim>\<open>CXSourceLocation\<close>) and tokens (\<^verbatim>\<open>CXToken\<close>) are opaque to the source and stay type
  variables. A translation unit and a file are pointers; \<open>0\<close> is the null pointer.
  \<^verbatim>\<open>clang_getToken\<close> returns a null pointer when there is no token: \<open>None\<close>.
  \<^verbatim>\<open>clang_getSpellingLocation\<close> writes the file and the byte offset of a location.
  \<^verbatim>\<open>clang_getFileContents\<close> returns the buffer (its size is the length of the list) or null.
\<close>

type_synonym CXTranslationUnit = nat
type_synonym CXFile = nat

record ('loc, 'tok) libclang =
  clang_getToken :: "CXTranslationUnit \<Rightarrow> 'loc \<Rightarrow> 'tok option"
  clang_getTokenExtent :: "CXTranslationUnit \<Rightarrow> 'tok \<Rightarrow> 'loc \<times> 'loc"
  clang_getSpellingLocation :: "'loc \<Rightarrow> CXFile \<times> nat"
  clang_getFileContents :: "CXTranslationUnit \<Rightarrow> CXFile \<Rightarrow> string option"
  clang_getLocationForOffset :: "CXTranslationUnit \<Rightarrow> CXFile \<Rightarrow> nat \<Rightarrow> 'loc"

text \<open>A \<^verbatim>\<open>CXSourceRange\<close> is the pair of its two locations.\<close>

definition clang_getRangeStart :: "'loc \<times> 'loc \<Rightarrow> 'loc" where
  "clang_getRangeStart extent = fst extent"

definition clang_getRangeEnd :: "'loc \<times> 'loc \<Rightarrow> 'loc" where
  "clang_getRangeEnd extent = snd extent"

text \<open>\<^verbatim>\<open>clang_equalLocations\<close> compares the fields of the two location structs.\<close>

definition clang_equalLocations :: "'loc \<Rightarrow> 'loc \<Rightarrow> bool" where
  "clang_equalLocations a b = (a = b)"

text \<open>
  \<^verbatim>\<open>std::isspace\<close> in the "C" locale: space, and the five control characters
  \<^verbatim>\<open>\t \n \v \f \r\<close> (codes 9 to 13). No other byte is whitespace.
\<close>

definition isspace :: "char \<Rightarrow> bool" where
  "isspace c = (let n = (of_char c :: nat) in n = 32 \<or> (9 \<le> n \<and> n \<le> 13))"

section \<open>The cursor\<close>

text \<open>
  \<^verbatim>\<open>token_iterator\<close> has one member, \<^verbatim>\<open>unique_token m_tok\<close>: a
  \<^verbatim>\<open>std::unique_ptr<CXToken, token_deleter>\<close>, that is a pointer to a token (null for the end
  sentinel) and the deleter, whose only field is the translation unit \<^verbatim>\<open>tu\<close>.
\<close>

record 'tok token_iterator =
  m_tok :: "'tok option"
  deleter_tu :: CXTranslationUnit

text \<open>
  The model is the debug build: a failing \<^verbatim>\<open>assert\<close> halts the program. Each asserted
  condition of the source is one constructor (\<^verbatim>\<open>assert(offset > 0)\<close> stands before the loop
  of the reverse step and in it); \<open>gsl_fail_fast\<close> is the bounds check of
  \<^verbatim>\<open>gsl::span::operator[]\<close>.
\<close>

datatype halt =
    assert_m_tok
  | assert_tu
  | assert_file
  | assert_offset_gt_0
  | assert_file_buffer
  | assert_offset_lt_file_size
  | gsl_fail_fast

text \<open>
  The source acquires tokens with \<^verbatim>\<open>clang_getToken\<close> and releases them with
  \<^verbatim>\<open>clang_disposeTokens\<close>. Every call of either is recorded, in order, with its arguments.
  The trace is ghost state: the values computed do not depend on it. It lets the theorems
  count the queries made to the lexer, say where they were made, and say in which order
  tokens are acquired and released. A token is a value here, not a pointer: every
  \<^verbatim>\<open>GetToken\<close> is an acquisition of its own, also when the lexer returns a token equal to
  one it returned before, and each \<^verbatim>\<open>DisposeTokens\<close> releases one acquisition.
\<close>

datatype ('loc, 'tok) call =
    GetToken CXTranslationUnit 'loc
  | DisposeTokens CXTranslationUnit 'tok

type_synonym ('loc, 'tok) trace = "('loc, 'tok) call list"

text \<open>The queries of a trace: the arguments of its calls of \<^verbatim>\<open>clang_getToken\<close>.\<close>

fun queries :: "('loc, 'tok) trace \<Rightarrow> (CXTranslationUnit \<times> 'loc) list" where
  "queries [] = []"
| "queries (GetToken tu loc # calls) = (tu, loc) # queries calls"
| "queries (DisposeTokens tu tok # calls) = queries calls"

text \<open>
  \<^verbatim>\<open>token_deleter::operator()\<close>, as \<^verbatim>\<open>std::unique_ptr\<close> runs it on the pointer it gives up in
  \<^verbatim>\<open>reset\<close>, in move assignment and in its destructor: nothing for a null pointer; otherwise
  the assertion on \<^verbatim>\<open>tu\<close>, then \<^verbatim>\<open>clang_disposeTokens\<close>.
\<close>

definition token_deleter ::
  "CXTranslationUnit \<Rightarrow> 'tok option \<Rightarrow> ('loc, 'tok) trace \<Rightarrow> ('loc, 'tok) trace \<times> (halt + unit)" where
  "token_deleter tu tok log =
     (case tok of
        None \<Rightarrow> (log, Inr ())
      | Some t \<Rightarrow>
          if tu = 0 then (log, Inl assert_tu)
          else (log @ [DisposeTokens tu t], Inr ()))"

definition is_end_sentinel :: "'tok token_iterator \<Rightarrow> bool" where
  "is_end_sentinel c = (case m_tok c of None \<Rightarrow> True | Some _ \<Rightarrow> False)"

text \<open>\<^verbatim>\<open>token_iterator() = default\<close>: a null pointer, and a deleter with a null \<^verbatim>\<open>tu\<close>.\<close>

definition end_sentinel :: "'tok token_iterator" where
  "end_sentinel = \<lparr>m_tok = None, deleter_tu = 0\<rparr>"

text \<open>\<^verbatim>\<open>token_iterator(CXTranslationUnit tu, const CURSOR_LOCATION &loc)\<close>\<close>

definition construct ::
  "('loc, 'tok) libclang \<Rightarrow> CXTranslationUnit \<Rightarrow> 'loc
     \<Rightarrow> ('loc, 'tok) trace \<times> 'tok token_iterator" where
  "construct L tu loc =
     ([GetToken tu loc], \<lparr>m_tok = clang_getToken L tu loc, deleter_tu = tu\<rparr>)"

text \<open>\<^verbatim>\<open>extent()\<close>, for a cursor whose token \<open>tok\<close> is not null.\<close>

definition extent :: "('loc, 'tok) libclang \<Rightarrow> 'tok token_iterator \<Rightarrow> 'tok \<Rightarrow> 'loc \<times> 'loc" where
  "extent L c tok = clang_getTokenExtent L (deleter_tu c) tok"

text \<open>\<^verbatim>\<open>clone()\<close>\<close>

definition clone ::
  "('loc, 'tok) libclang \<Rightarrow> 'tok token_iterator \<Rightarrow> ('loc, 'tok) trace \<times> 'tok token_iterator" where
  "clone L c =
     (case m_tok c of
        None \<Rightarrow> ([], end_sentinel)
      | Some tok \<Rightarrow>
          let loc = clang_getRangeStart (extent L c tok) in
          ([GetToken (deleter_tu c) loc],
           \<lparr>m_tok = clang_getToken L (deleter_tu c) loc, deleter_tu = deleter_tu c\<rparr>))"

text \<open>The copy constructor: \<^verbatim>\<open>m_tok{ other.clone() }\<close>.\<close>

definition copy_construct ::
  "('loc, 'tok) libclang \<Rightarrow> 'tok token_iterator \<Rightarrow> ('loc, 'tok) trace \<times> 'tok token_iterator" where
  "copy_construct L other = clone L other"

text \<open>
  Copy assignment: \<^verbatim>\<open>m_tok = other.clone()\<close>. The clone is computed first; the move
  assignment of \<^verbatim>\<open>std::unique_ptr\<close> then takes its pointer, runs the deleter that \<open>this\<close> had
  on the pointer that \<open>this\<close> held, and takes the deleter of the clone. For self-assignment
  \<open>other\<close> is \<open>this\<close>.
\<close>

definition copy_assign ::
  "('loc, 'tok) libclang \<Rightarrow> 'tok token_iterator \<Rightarrow> 'tok token_iterator
     \<Rightarrow> ('loc, 'tok) trace \<times> (halt + 'tok token_iterator)" where
  "copy_assign L this other =
     (let cloned = clone L other in
      case token_deleter (deleter_tu this) (m_tok this) (fst cloned) of
        (log, Inl h) \<Rightarrow> (log, Inl h)
      | (log, Inr _) \<Rightarrow> (log, Inr (snd cloned)))"

text \<open>
  \<^verbatim>\<open>operator++()\<close>: \<^verbatim>\<open>m_tok.reset\<close> takes the new pointer, runs the deleter on the old one and
  keeps the deleter.
\<close>

definition operator_inc ::
  "('loc, 'tok) libclang \<Rightarrow> 'tok token_iterator
     \<Rightarrow> ('loc, 'tok) trace \<times> (halt + 'tok token_iterator)" where
  "operator_inc L c =
     (case m_tok c of
        None \<Rightarrow> ([], Inl assert_m_tok)
      | Some tok \<Rightarrow>
          let prev_extent = extent L c tok;
              prev_end = clang_getRangeEnd prev_extent;
              next_tok = clang_getToken L (deleter_tu c) prev_end
          in case token_deleter (deleter_tu c) (Some tok) [GetToken (deleter_tu c) prev_end] of
               (log, Inl h) \<Rightarrow> (log, Inl h)
             | (log, Inr _) \<Rightarrow> (log, Inr (c\<lparr>m_tok := next_tok\<rparr>)))"

text \<open>\<^verbatim>\<open>operator==\<close>\<close>

definition operator_eq ::
  "('loc, 'tok) libclang \<Rightarrow> 'tok token_iterator \<Rightarrow> 'tok token_iterator \<Rightarrow> bool" where
  "operator_eq L c other =
     (if (\<not> is_end_sentinel c) \<noteq> (\<not> is_end_sentinel other) then False
      else case m_tok c of
        None \<Rightarrow> True
      | Some tok \<Rightarrow>
          (case m_tok other of
             None \<Rightarrow> True
           | Some other_tok \<Rightarrow>
               deleter_tu c = deleter_tu other \<and>
               clang_equalLocations (clang_getRangeEnd (extent L c tok))
                                    (clang_getRangeEnd (extent L other other_tok))))"

section \<open>The reverse step\<close>

text \<open>
  Offsets are natural numbers. The source holds them in an \<^verbatim>\<open>unsigned int\<close>, which it only
  decrements, each time under the assertion that it is positive, so the arithmetic never
  wraps; the offsets of step 2 are below the offset that step 1 ends with, so
  \<^verbatim>\<open>gsl::narrow<unsigned int>\<close> never fails on them.

  Step 1 of \<^verbatim>\<open>operator--()\<close>, the loop \<^verbatim>\<open>while (true)\<close>. The argument \<open>offset\<close> is the value
  of the variable on entry to an iteration: the iteration asserts that it is positive and
  decrements it. \<open>candidate_tok\<close> is the pointer held on entry, null at first;
  \<^verbatim>\<open>candidate_tok.reset\<close> runs the deleter on it. The loop leaves with the new offset, the
  candidate token and its end.
\<close>

fun step1 ::
  "('loc, 'tok) libclang \<Rightarrow> CXTranslationUnit \<Rightarrow> CXFile \<Rightarrow> string \<Rightarrow> 'loc \<Rightarrow> nat \<Rightarrow> 'tok option
     \<Rightarrow> ('loc, 'tok) trace \<Rightarrow> ('loc, 'tok) trace \<times> (halt + nat \<times> 'tok \<times> 'loc)" where
  "step1 L tu file search_span curr_end 0 candidate_tok log = (log, Inl assert_offset_gt_0)"
| "step1 L tu file search_span curr_end (Suc offset) candidate_tok log =
     (if \<not> offset < length search_span then (log, Inl gsl_fail_fast)
      else if isspace (search_span ! offset) then
        step1 L tu file search_span curr_end offset candidate_tok log
      else
        let candidate_loc = clang_getLocationForOffset L tu file offset;
            new_tok = clang_getToken L tu candidate_loc
        in case token_deleter tu candidate_tok (log @ [GetToken tu candidate_loc]) of
             (log', Inl h) \<Rightarrow> (log', Inl h)
           | (log', Inr _) \<Rightarrow>
               (case new_tok of
                  None \<Rightarrow> step1 L tu file search_span curr_end offset None log'
                | Some tok \<Rightarrow>
                    let candidate_end = clang_getRangeEnd (clang_getTokenExtent L tu tok)
                    in if \<not> clang_equalLocations candidate_end curr_end
                       then (log', Inr (offset, tok, candidate_end))
                       else step1 L tu file search_span curr_end offset (Some tok) log'))"

text \<open>
  The helper \<^verbatim>\<open>consider_next_candidate\<close>. \<open>pos\<close> is \<^verbatim>\<open>pos - file_buffer\<close>, the offset of the
  byte pointed to. The lambda assigns to the captured \<^verbatim>\<open>candidate_tok\<close>, which is not null
  in step 2; the model returns the boolean and the value of \<^verbatim>\<open>candidate_tok\<close> afterwards.
  A token that is rejected is released by the destructor of \<^verbatim>\<open>next_candidate_tok\<close>; when a
  token is accepted, the move assignment releases the candidate held so far.
\<close>

definition consider_next_candidate ::
  "('loc, 'tok) libclang \<Rightarrow> CXTranslationUnit \<Rightarrow> CXFile \<Rightarrow> 'loc \<Rightarrow> 'tok \<Rightarrow> nat
     \<Rightarrow> ('loc, 'tok) trace \<Rightarrow> ('loc, 'tok) trace \<times> (halt + bool \<times> 'tok)" where
  "consider_next_candidate L tu file candidate_end candidate_tok pos log =
     (let next_candidate_loc = clang_getLocationForOffset L tu file pos;
          log' = log @ [GetToken tu next_candidate_loc]
      in case clang_getToken L tu next_candidate_loc of
        Some next_candidate_tok \<Rightarrow>
          let next_candidate_end =
                clang_getRangeEnd (clang_getTokenExtent L tu next_candidate_tok)
          in if \<not> clang_equalLocations next_candidate_end candidate_end
             then (case token_deleter tu (Some next_candidate_tok) log' of
                     (log'', Inl h) \<Rightarrow> (log'', Inl h)
                   | (log'', Inr _) \<Rightarrow> (log'', Inr (False, candidate_tok)))
             else (case token_deleter tu (Some candidate_tok) log' of
                     (log'', Inl h) \<Rightarrow> (log'', Inl h)
                   | (log'', Inr _) \<Rightarrow> (log'', Inr (True, next_candidate_tok)))
      | None \<Rightarrow> (log', Inr (False, candidate_tok)))"

text \<open>
  The loop \<^verbatim>\<open>while (!search_span.empty())\<close>. The span is a window of the file buffer: \<open>span_data\<close>
  is the offset of its first byte in the file and \<open>span_size\<close> its length.
\<close>

fun binary_search ::
  "('loc, 'tok) libclang \<Rightarrow> CXTranslationUnit \<Rightarrow> CXFile \<Rightarrow> 'loc \<Rightarrow> nat \<Rightarrow> nat \<Rightarrow> 'tok
     \<Rightarrow> ('loc, 'tok) trace \<Rightarrow> ('loc, 'tok) trace \<times> (halt + 'tok)" where
  "binary_search L tu file candidate_end span_data span_size candidate_tok log =
     (if span_size = 0 then (log, Inr candidate_tok)
      else
        let mid_pos = span_size div 2 in
        case consider_next_candidate L tu file candidate_end candidate_tok
               (span_data + mid_pos) log of
          (log', Inl h) \<Rightarrow> (log', Inl h)
        | (log', Inr r) \<Rightarrow>
            if fst r
            then binary_search L tu file candidate_end span_data mid_pos (snd r) log'
            else binary_search L tu file candidate_end (span_data + (mid_pos + 1))
                   (span_size - (mid_pos + 1)) (snd r) log')"

declare binary_search.simps [simp del]

text \<open>
  Step 2: \<^verbatim>\<open>search_span.first(offset)\<close>, the length of its non-whitespace suffix
  (\<^verbatim>\<open>std::find_if\<close> over the reversed span), \<^verbatim>\<open>search_span.last(str_length)\<close>, the first probe
  and the binary search.
\<close>

definition step2 ::
  "('loc, 'tok) libclang \<Rightarrow> CXTranslationUnit \<Rightarrow> CXFile \<Rightarrow> string \<Rightarrow> 'loc \<Rightarrow> nat \<Rightarrow> 'tok
     \<Rightarrow> ('loc, 'tok) trace \<Rightarrow> ('loc, 'tok) trace \<times> (halt + 'tok)" where
  "step2 L tu file file_buffer candidate_end offset candidate_tok log =
     (let search_span = take offset file_buffer;
          str_length = length (takeWhile (\<lambda>c. \<not> isspace c) (rev search_span));
          data = offset - str_length
      in if str_length \<noteq> 0 then
           case consider_next_candidate L tu file candidate_end candidate_tok data log of
             (log', Inl h) \<Rightarrow> (log', Inl h)
           | (log', Inr r) \<Rightarrow>
               if fst r then (log', Inr (snd r))
               else binary_search L tu file candidate_end (data + 1) (str_length - 1)
                      (snd r) log'
         else (log, Inr candidate_tok))"

text \<open>
  \<^verbatim>\<open>operator--()\<close>. The last statement, \<^verbatim>\<open>m_tok = std::move(candidate_tok)\<close>, runs the deleter
  on the token held so far.
\<close>

definition operator_dec ::
  "('loc, 'tok) libclang \<Rightarrow> 'tok token_iterator
     \<Rightarrow> ('loc, 'tok) trace \<times> (halt + 'tok token_iterator)" where
  "operator_dec L c =
     (case m_tok c of
        None \<Rightarrow> ([], Inl assert_m_tok)
      | Some tok \<Rightarrow>
          let curr_extent = extent L c tok;
              curr_start = clang_getRangeStart curr_extent;
              curr_end = clang_getRangeEnd curr_extent;
              file = fst (clang_getSpellingLocation L curr_start);
              offset = snd (clang_getSpellingLocation L curr_start)
          in if file = 0 then ([], Inl assert_file)
             else if \<not> offset > 0 then ([], Inl assert_offset_gt_0)
             else case clang_getFileContents L (deleter_tu c) file of
                    None \<Rightarrow> ([], Inl assert_file_buffer)
                  | Some file_buffer \<Rightarrow>
                      if \<not> offset < length file_buffer
                      then ([], Inl assert_offset_lt_file_size)
                      else
                        case step1 L (deleter_tu c) file file_buffer curr_end offset None [] of
                          (log, Inl h) \<Rightarrow> (log, Inl h)
                        | (log, Inr (offset', candidate_tok, candidate_end)) \<Rightarrow>
                            (case step2 L (deleter_tu c) file file_buffer candidate_end
                                    offset' candidate_tok log of
                               (log', Inl h) \<Rightarrow> (log', Inl h)
                             | (log', Inr found) \<Rightarrow>
                                 (case token_deleter (deleter_tu c) (Some tok) log' of
                                    (log'', Inl h) \<Rightarrow> (log'', Inl h)
                                  | (log'', Inr _) \<Rightarrow>
                                      (log'', Inr \<lparr>m_tok = Some found,
                                                   deleter_tu = deleter_tu c\<rparr>))))"

section \<open>A lexer for one file, from its list of tokens\<close>

text \<open>
  Modelled from the spec: the lexer (libclang) is outside the repository, and the spec
  describes it as an oracle "token at location", which returns the token covering a
  location, may return the following token for the gap before it (leading trivia),
  returns the next token when asked at or just past the end of a token, and returns no
  token past the last one. A location is a file and a byte offset; a token is its extent,
  the start and end offsets in the one file \<open>main_file\<close>. The oracle returns the first
  token that ends after the offset asked for.
\<close>

definition main_file :: CXFile where
  "main_file = 1"

definition spec_lexer :: "string \<Rightarrow> (nat \<times> nat) list \<Rightarrow> (CXFile \<times> nat, nat \<times> nat) libclang" where
  "spec_lexer buf toks =
     \<lparr>clang_getToken =
        (\<lambda>tu loc. if fst loc = main_file then find (\<lambda>tok. snd loc < snd tok) toks else None),
      clang_getTokenExtent = (\<lambda>tu tok. ((main_file, fst tok), (main_file, snd tok))),
      clang_getSpellingLocation = (\<lambda>loc. loc),
      clang_getFileContents = (\<lambda>tu file. if file = main_file then Some buf else None),
      clang_getLocationForOffset = (\<lambda>tu file offset. (file, offset))\<rparr>"


text \<open>
  Modelled from the spec: the tokens of a file are listed in source order, each is a
  non-empty byte range inside the buffer that starts at or after the end of the one
  before, and each contains a byte that is not whitespace.
\<close>

fun tokens_from :: "string \<Rightarrow> nat \<Rightarrow> (nat \<times> nat) list \<Rightarrow> bool" where
  "tokens_from buf lo [] = True"
| "tokens_from buf lo (tok # toks) =
     (lo \<le> fst tok \<and> fst tok < snd tok \<and> snd tok \<le> length buf \<and>
      (\<exists>q \<in> {fst tok ..< snd tok}. \<not> isspace (buf ! q)) \<and>
      tokens_from buf (snd tok) toks)"

definition well_lexed :: "string \<Rightarrow> (nat \<times> nat) list \<Rightarrow> bool" where
  "well_lexed buf toks = tokens_from buf 0 toks"

section \<open>Predicates on the answers of the lexer\<close>

text \<open>The query made for the byte at \<open>offset\<close> of \<open>file\<close>.\<close>

definition probe ::
  "('loc, 'tok) libclang \<Rightarrow> CXTranslationUnit \<Rightarrow> CXFile \<Rightarrow> nat \<Rightarrow> CXTranslationUnit \<times> 'loc" where
  "probe L tu file offset = (tu, clang_getLocationForOffset L tu file offset)"

text \<open>The lexer, asked at \<open>offset\<close>, returns a token whose extent ends at \<open>end_loc\<close>.\<close>

definition yields_end ::
  "('loc, 'tok) libclang \<Rightarrow> CXTranslationUnit \<Rightarrow> CXFile \<Rightarrow> 'loc \<Rightarrow> nat \<Rightarrow> bool" where
  "yields_end L tu file end_loc offset =
     (case clang_getToken L tu (clang_getLocationForOffset L tu file offset) of
        None \<Rightarrow> False
      | Some tok \<Rightarrow> clang_getRangeEnd (clang_getTokenExtent L tu tok) = end_loc)"

text \<open>
  The lexer, asked at \<open>offset\<close>, returns no token, or a token that ends where the current
  token ends.
\<close>

definition no_new_token ::
  "('loc, 'tok) libclang \<Rightarrow> CXTranslationUnit \<Rightarrow> CXFile \<Rightarrow> 'loc \<Rightarrow> nat \<Rightarrow> bool" where
  "no_new_token L tu file curr_end offset =
     (case clang_getToken L tu (clang_getLocationForOffset L tu file offset) of
        None \<Rightarrow> True
      | Some tok \<Rightarrow> clang_getRangeEnd (clang_getTokenExtent L tu tok) = curr_end)"

text \<open>
  The lexer, asked again at the start of the extent of the token a cursor holds, returns a
  token with the same end. The source relies on it: "the end location is consistent
  regardless of which start location scheme is used".
\<close>

definition requery_keeps_end :: "('loc, 'tok) libclang \<Rightarrow> 'tok token_iterator \<Rightarrow> bool" where
  "requery_keeps_end L c =
     (case m_tok c of
        None \<Rightarrow> True
      | Some tok \<Rightarrow>
          (case clang_getToken L (deleter_tu c) (clang_getRangeStart (extent L c tok)) of
             None \<Rightarrow> False
           | Some tok' \<Rightarrow>
               clang_getRangeEnd (extent L c tok') = clang_getRangeEnd (extent L c tok)))"

text \<open>
  The queries made for the bytes of \<open>buf\<close> that are not whitespace, from offset \<open>hi - 1\<close>
  down to offset \<open>lo\<close>.
\<close>

definition probes_between ::
  "('loc, 'tok) libclang \<Rightarrow> CXTranslationUnit \<Rightarrow> CXFile \<Rightarrow> string \<Rightarrow> nat \<Rightarrow> nat
     \<Rightarrow> (CXTranslationUnit \<times> 'loc) list" where
  "probes_between L tu file buf lo hi =
     map (probe L tu file) (filter (\<lambda>q. \<not> isspace (buf ! q)) (rev [lo..<hi]))"

text \<open>
  The offset at which the span of step 2 starts: the first byte of the longest run of
  bytes that are not whitespace and that ends just before offset \<open>p\<close>.
\<close>

definition run_start :: "string \<Rightarrow> nat \<Rightarrow> nat" where
  "run_start buf p = p - length (takeWhile (\<lambda>c. \<not> isspace c) (rev (take p buf)))"

text \<open>
  The cursor holds the token \<open>tok\<close>, the start of its extent is byte \<open>offset\<close> of \<open>file\<close>,
  and the contents of that file are \<open>file_buffer\<close>: what \<^verbatim>\<open>operator--()\<close> reads before its
  search.
\<close>

definition holds_at ::
  "('loc, 'tok) libclang \<Rightarrow> 'tok token_iterator \<Rightarrow> 'tok \<Rightarrow> CXFile \<Rightarrow> nat \<Rightarrow> string \<Rightarrow> bool" where
  "holds_at L c tok file offset file_buffer =
     (m_tok c = Some tok \<and>
      clang_getSpellingLocation L (clang_getRangeStart (extent L c tok)) = (file, offset) \<and>
      clang_getFileContents L (deleter_tu c) file = Some file_buffer)"

text \<open>
  The token was returned by the lexer of translation unit \<open>tu\<close>, for some location, and
  its extent ends at \<open>end_loc\<close>.
\<close>

definition lexed_with_end ::
  "('loc, 'tok) libclang \<Rightarrow> CXTranslationUnit \<Rightarrow> 'loc \<Rightarrow> 'tok \<Rightarrow> bool" where
  "lexed_with_end L tu end_loc tok =
     ((\<exists>loc. clang_getToken L tu loc = Some tok) \<and>
      clang_getRangeEnd (clang_getTokenExtent L tu tok) = end_loc)"

section \<open>Scenarios\<close>

text \<open>
  Modelled from the spec: the sources of scenarios S2 and S3 with their tokens, a source
  whose last token but one is a string literal that holds a space, and a cursor of
  translation unit 1 that holds a given token.
\<close>

definition S2_lexer :: "(CXFile \<times> nat, nat \<times> nat) libclang" where
  "S2_lexer = spec_lexer ''a  +  b'' [(0, 1), (3, 4), (6, 7)]"




definition cursor_on :: "nat \<times> nat \<Rightarrow> (nat \<times> nat) token_iterator" where
  "cursor_on tok = \<lparr>m_tok = Some tok, deleter_tu = 1\<rparr>"

section \<open>Traces and the deleter\<close>

lemma queries_append [simp]: "queries (xs @ ys) = queries xs @ queries ys"
  by (induction xs rule: queries.induct) simp_all

lemma token_deleter_None [simp]: "token_deleter tu None log = (log, Inr ())"
  by (simp add: token_deleter_def)

lemma token_deleter_Some:
  "tu \<noteq> 0 \<Longrightarrow> token_deleter tu (Some t) log = (log @ [DisposeTokens tu t], Inr ())"
  by (simp add: token_deleter_def)

lemma token_deleter_ok:
  "tu \<noteq> 0 \<Longrightarrow> \<exists>log'. token_deleter tu tok log = (log', Inr ()) \<and> queries log' = queries log"
  by (cases tok) (simp_all add: token_deleter_Some)

lemma token_deleter_queries: "queries (fst (token_deleter tu tok log)) = queries log"
  by (simp add: token_deleter_def split: option.splits)

lemma token_deleter_returns:
  "token_deleter tu (Some t) log = (log', Inr u) \<Longrightarrow> tu \<noteq> 0"
  by (auto simp: token_deleter_def split: if_splits)

section \<open>Step 1 of the reverse step\<close>

text \<open>
  Step 1, from offset \<open>S\<close>, under a translation unit that is not null: either it leaves
  with an offset \<open>p\<close> below \<open>S\<close> whose byte is not whitespace and for which the lexer
  returned a token with another end than \<open>E\<close>, all offsets between \<open>p\<close> and \<open>S\<close> being
  whitespace or answered with no token or a token that ends at \<open>E\<close>; or every offset below
  \<open>S\<close> is of that kind and the assertion fails at offset 0. The queries are those for the
  bytes that are not whitespace.
\<close>

lemma probes_between_Suc: "lo \<le> hi \<Longrightarrow> probes_between L tu file buf lo (Suc hi) =
   (if isspace (buf ! hi) then probes_between L tu file buf lo hi
    else probe L tu file hi # probes_between L tu file buf lo hi)"
  by (simp add: probes_between_def)

lemma step1_char:
  "S \<le> length buf \<Longrightarrow> tu \<noteq> 0 \<Longrightarrow>
   (case step1 L tu file buf E S held acc of
      (log, Inr (p, cand, cand_end)) \<Rightarrow>
        p < S \<and> \<not> isspace (buf ! p)
        \<and> clang_getToken L tu (clang_getLocationForOffset L tu file p) = Some cand
        \<and> cand_end = clang_getRangeEnd (clang_getTokenExtent L tu cand)
        \<and> cand_end \<noteq> E
        \<and> (\<forall>q. p < q \<and> q < S \<longrightarrow> isspace (buf ! q) \<or> no_new_token L tu file E q)
        \<and> queries log = queries acc @ probes_between L tu file buf p S
    | (log, Inl h) \<Rightarrow>
        h = assert_offset_gt_0
        \<and> (\<forall>q. q < S \<longrightarrow> isspace (buf ! q) \<or> no_new_token L tu file E q)
        \<and> queries log = queries acc @ probes_between L tu file buf 0 S)"
proof (induction S arbitrary: held acc)
  case 0
  then show ?case by (simp add: probes_between_def)
next
  case (Suc S)
  have le: "S \<le> length buf" and lt: "S < length buf" using Suc.prems by simp_all
  note IH = Suc.IH [OF le Suc.prems(2)]
  show ?case
  proof (cases "isspace (buf ! S)")
    case True
    then have eq: "step1 L tu file buf E (Suc S) held acc = step1 L tu file buf E S held acc"
      using lt by simp
    show ?thesis
      unfolding eq using IH [where held = held and acc = acc] True
      by (auto split: prod.splits sum.splits simp: probes_between_Suc less_Suc_eq)
  next
    case False
    let ?loc = "clang_getLocationForOffset L tu file S"
    obtain log1 where del: "token_deleter tu held (acc @ [GetToken tu ?loc]) = (log1, Inr ())"
      and q1: "queries log1 = queries acc @ [probe L tu file S]"
      using token_deleter_ok [OF Suc.prems(2), where tok = held
            and log = "acc @ [GetToken tu ?loc]"]
      by (auto simp: probe_def)
    show ?thesis
    proof (cases "clang_getToken L tu ?loc")
      case None
      then have eq: "step1 L tu file buf E (Suc S) held acc = step1 L tu file buf E S None log1"
        using lt False del by simp
      have nn: "no_new_token L tu file E S"
        using None by (simp add: no_new_token_def)
      show ?thesis
        unfolding eq using IH [where held = None and acc = log1] False nn
        by (auto split: prod.splits sum.splits simp: probes_between_Suc less_Suc_eq q1)
    next
      case (Some cand)
      show ?thesis
      proof (cases "clang_getRangeEnd (clang_getTokenExtent L tu cand) = E")
        case True
        then have eq: "step1 L tu file buf E (Suc S) held acc =
                       step1 L tu file buf E S (Some cand) log1"
          using lt False Some del by (simp add: clang_equalLocations_def)
        have nn: "no_new_token L tu file E S"
          using Some True by (simp add: no_new_token_def)
        show ?thesis
          unfolding eq using IH [where held = "Some cand" and acc = log1] False nn
          by (auto split: prod.splits sum.splits simp: probes_between_Suc less_Suc_eq q1)
      next
        case ne: False
        then have eq: "step1 L tu file buf E (Suc S) held acc =
            (log1, Inr (S, cand, clang_getRangeEnd (clang_getTokenExtent L tu cand)))"
          using lt False Some del by (simp add: clang_equalLocations_def)
        show ?thesis
          unfolding eq using False Some ne by (auto simp: probes_between_def q1)
      qed
    qed
  qed
qed

text \<open>Whatever the translation unit, step 1 queries offsets below \<open>S\<close> only.\<close>

lemma step1_queries:
  "S \<le> length buf \<Longrightarrow>
   set (queries (fst (step1 L tu file buf E S held acc)))
     \<subseteq> set (queries acc) \<union> probe L tu file ` {..< S}"
proof (induction S arbitrary: held acc)
  case 0
  then show ?case by simp
next
  case (Suc S)
  have le: "S \<le> length buf" and lt: "S < length buf" using Suc.prems by simp_all
  note IH = Suc.IH [OF le]
  let ?loc = "clang_getLocationForOffset L tu file S"
  let ?d = "token_deleter tu held (acc @ [GetToken tu ?loc])"
  let ?goal = "set (queries acc) \<union> probe L tu file ` {..< Suc S}"
  have qd: "queries (fst ?d) = queries acc @ [probe L tu file S]"
    by (simp add: token_deleter_queries probe_def)
  have sub: "probe L tu file ` {..< S} \<subseteq> probe L tu file ` {..< Suc S}" by auto
  have same: "set (queries (fst (step1 L tu file buf E S h acc))) \<subseteq> ?goal" for h
    using IH [where held = h and acc = acc] sub by blast
  show ?case
  proof (cases "isspace (buf ! S)")
    case True
    then have eq: "step1 L tu file buf E (Suc S) held acc = step1 L tu file buf E S held acc"
      using lt by simp
    show ?thesis unfolding eq by (rule same)
  next
    case False
    obtain log1 r where d: "?d = (log1, r)" by (cases ?d)
    have "queries log1 = queries acc @ [probe L tu file S]" using qd d by simp
    then have q1: "set (queries log1) \<subseteq> ?goal" by auto
    have rec: "set (queries (fst (step1 L tu file buf E S h log1))) \<subseteq> ?goal" for h
      using IH [where held = h and acc = log1] q1 sub by blast
    show ?thesis
    proof (cases r)
      case (Inl h)
      then have eq: "step1 L tu file buf E (Suc S) held acc = (log1, Inl h)"
        using lt False d by simp
      show ?thesis unfolding eq using q1 by simp
    next
      case (Inr u)
      show ?thesis
      proof (cases "clang_getToken L tu ?loc")
        case None
        then have eq: "step1 L tu file buf E (Suc S) held acc =
                       step1 L tu file buf E S None log1"
          using lt False d Inr by simp
        show ?thesis unfolding eq by (rule rec)
      next
        case (Some cand)
        show ?thesis
        proof (cases "clang_getRangeEnd (clang_getTokenExtent L tu cand) = E")
          case True
          then have eq: "step1 L tu file buf E (Suc S) held acc =
                     step1 L tu file buf E S (Some cand) log1"
            using lt False Some d Inr by (simp add: clang_equalLocations_def)
          show ?thesis unfolding eq by (rule rec)
        next
          case ne: False
          then have eq: "step1 L tu file buf E (Suc S) held acc =
              (log1, Inr (S, cand, clang_getRangeEnd (clang_getTokenExtent L tu cand)))"
            using lt False Some d Inr by (simp add: clang_equalLocations_def)
          show ?thesis unfolding eq using q1 by simp
        qed
      qed
    qed
  qed
qed

lemma step1_lexed:
  "step1 L tu file buf E S held acc = (log, Inr (p, cand, cand_end)) \<Longrightarrow>
   p < S \<and> lexed_with_end L tu cand_end cand"
proof (induction S arbitrary: held acc)
  case 0
  then show ?case by simp
next
  case (Suc S)
  let ?loc = "clang_getLocationForOffset L tu file S"
  let ?d = "token_deleter tu held (acc @ [GetToken tu ?loc])"
  have lt: "S < length buf" using Suc.prems by (cases "S < length buf") simp_all
  have weaken: "p < Suc S \<and> lexed_with_end L tu cand_end cand"
    if "step1 L tu file buf E S h a = (log, Inr (p, cand, cand_end))" for h a
    using Suc.IH [OF that] by simp
  show ?case
  proof (cases "isspace (buf ! S)")
    case True
    then have "step1 L tu file buf E (Suc S) held acc = step1 L tu file buf E S held acc"
      using lt by simp
    then show ?thesis using Suc.prems weaken by simp
  next
    case False
    obtain log1 r where d: "?d = (log1, r)" by (cases ?d)
    show ?thesis
    proof (cases r)
      case (Inl h)
      then have "step1 L tu file buf E (Suc S) held acc = (log1, Inl h)"
        using lt False d by simp
      then show ?thesis using Suc.prems by simp
    next
      case (Inr u)
      show ?thesis
      proof (cases "clang_getToken L tu ?loc")
        case None
        then have "step1 L tu file buf E (Suc S) held acc = step1 L tu file buf E S None log1"
          using lt False d Inr by simp
        then show ?thesis using Suc.prems weaken by simp
      next
        case (Some t)
        show ?thesis
        proof (cases "clang_getRangeEnd (clang_getTokenExtent L tu t) = E")
          case True
          then have "step1 L tu file buf E (Suc S) held acc =
                     step1 L tu file buf E S (Some t) log1"
            using lt False Some d Inr by (simp add: clang_equalLocations_def)
          then show ?thesis using Suc.prems weaken by simp
        next
          case ne: False
          then have "step1 L tu file buf E (Suc S) held acc =
              (log1, Inr (S, t, clang_getRangeEnd (clang_getTokenExtent L tu t)))"
            using lt False Some d Inr by (simp add: clang_equalLocations_def)
          then show ?thesis using Suc.prems Some by (auto simp: lexed_with_end_def)
        qed
      qed
    qed
  qed
qed

section \<open>Step 2 of the reverse step\<close>

text \<open>
  The helper accepts exactly the offsets at which the lexer yields the candidate's end,
  and makes one query.
\<close>

lemma consider_next_candidate_accept:
  assumes "tu \<noteq> 0" "yields_end L tu file cend pos"
  shows "\<exists>log' tok. consider_next_candidate L tu file cend cand pos log = (log', Inr (True, tok))
           \<and> clang_getToken L tu (clang_getLocationForOffset L tu file pos) = Some tok
           \<and> queries log' = queries log @ [probe L tu file pos]"
  using assms
  by (auto simp: consider_next_candidate_def yields_end_def clang_equalLocations_def Let_def
        token_deleter_Some probe_def split: option.splits)

lemma consider_next_candidate_reject:
  assumes "tu \<noteq> 0" "\<not> yields_end L tu file cend pos"
  shows "\<exists>log'. consider_next_candidate L tu file cend cand pos log = (log', Inr (False, cand))
           \<and> queries log' = queries log @ [probe L tu file pos]"
  using assms
  by (auto simp: consider_next_candidate_def yields_end_def clang_equalLocations_def Let_def
        token_deleter_Some probe_def split: option.splits)

lemma consider_next_candidate_queries:
  "queries (fst (consider_next_candidate L tu file cend cand pos log)) =
     queries log @ [probe L tu file pos]"
  by (auto simp: consider_next_candidate_def Let_def token_deleter_def probe_def
        split: option.splits)

lemma consider_next_candidate_lexed:
  assumes "consider_next_candidate L tu file cend cand pos log = (log', Inr r)"
    and "lexed_with_end L tu cend cand"
  shows "lexed_with_end L tu cend (snd r)"
  using assms
  by (auto simp: consider_next_candidate_def lexed_with_end_def clang_equalLocations_def Let_def
        token_deleter_def split: option.splits if_splits)

lemma consider_next_candidate_returns:
  "tu \<noteq> 0 \<Longrightarrow> \<exists>log' r. consider_next_candidate L tu file cend cand pos log = (log', Inr r)"
  using consider_next_candidate_accept [of tu L "file" cend pos cand log]
        consider_next_candidate_reject [of tu L "file" cend pos cand log]
  by (cases "yields_end L tu file cend pos") blast+

text \<open>
  The binary search over the window \<open>[lo, lo + n)\<close>, entered with the token obtained at
  \<open>lo + n\<close> as candidate and after a rejected probe at \<open>lo - 1\<close>: it leaves with the token
  obtained at an offset of \<open>[lo, lo + n]\<close> that yields the candidate's end and comes just
  after an offset that does not.
\<close>

lemma binary_search_empty [simp]:
  "binary_search L tu file cend lo 0 cand log = (log, Inr cand)"
  by (subst binary_search.simps) simp

lemma binary_search_accept:
  assumes "n \<noteq> 0"
    and "consider_next_candidate L tu file cend cand (lo + n div 2) log = (log', Inr (True, tok))"
  shows "binary_search L tu file cend lo n cand log =
         binary_search L tu file cend lo (n div 2) tok log'"
  using assms by (subst binary_search.simps) (simp add: Let_def)

lemma binary_search_reject:
  assumes "n \<noteq> 0"
    and "consider_next_candidate L tu file cend cand (lo + n div 2) log = (log', Inr (False, tok))"
  shows "binary_search L tu file cend lo n cand log =
         binary_search L tu file cend (lo + (n div 2 + 1)) (n - (n div 2 + 1)) tok log'"
  using assms by (subst binary_search.simps) (simp add: Let_def)

lemma binary_search_halt:
  assumes "n \<noteq> 0"
    and "consider_next_candidate L tu file cend cand (lo + n div 2) log = (log', Inl h)"
  shows "binary_search L tu file cend lo n cand log = (log', Inl h)"
  using assms by (subst binary_search.simps) (simp add: Let_def)


lemma binary_search_queries:
  "set (queries (fst (binary_search L tu file cend lo n cand log)))
     \<subseteq> set (queries log) \<union> probe L tu file ` {lo ..< lo + n}"
proof (induction n arbitrary: lo cand log rule: less_induct)
  case (less n)
  show ?case
  proof (cases "n = 0")
    case True
    then show ?thesis by simp
  next
    case False
    let ?mid = "n div 2"
    let ?c = "consider_next_candidate L tu file cend cand (lo + ?mid) log"
    let ?goal = "set (queries log) \<union> probe L tu file ` {lo ..< lo + n}"
    have mid: "?mid < n" using False by simp
    obtain log' r where c: "?c = (log', r)" by (cases ?c)
    have "queries log' = queries log @ [probe L tu file (lo + ?mid)]"
      using consider_next_candidate_queries [of L tu "file" cend cand "lo + ?mid" log] c
      by simp
    then have new: "set (queries log') \<subseteq> ?goal" using mid by auto
    show ?thesis
    proof (cases r)
      case (Inl h)
      show ?thesis
        unfolding binary_search_halt [OF False c [unfolded Inl]] using new by simp
    next
      case (Inr b)
      obtain ok tok where b: "b = (ok, tok)" by (cases b)
      show ?thesis
      proof (cases ok)
        case True
        have sub: "{lo ..< lo + ?mid} \<subseteq> {lo ..< lo + n}" using mid by auto
        have c': "?c = (log', Inr (True, tok))" using c Inr b True by simp
        show ?thesis
          unfolding binary_search_accept [OF False c']
          using less.IH [OF mid, of lo tok log'] new sub by blast
      next
        case notok: False
        have less': "n - (?mid + 1) < n" using False by simp
        have sub: "{lo + (?mid + 1) ..< lo + (?mid + 1) + (n - (?mid + 1))} \<subseteq> {lo ..< lo + n}"
          using mid by auto
        have c': "?c = (log', Inr (False, tok))" using c Inr b notok by simp
        show ?thesis
          unfolding binary_search_reject [OF False c']
          using less.IH [OF less', of "lo + (?mid + 1)" tok log'] new sub by blast
      qed
    qed
  qed
qed

lemma binary_search_lexed:
  "binary_search L tu file cend lo n cand log = (log', Inr tok') \<Longrightarrow>
   lexed_with_end L tu cend cand \<Longrightarrow> lexed_with_end L tu cend tok'"
proof (induction n arbitrary: lo cand log rule: less_induct)
  case (less n)
  show ?case
  proof (cases "n = 0")
    case True
    then show ?thesis using less.prems by simp
  next
    case False
    let ?mid = "n div 2"
    let ?c = "consider_next_candidate L tu file cend cand (lo + ?mid) log"
    have mid: "?mid < n" using False by simp
    obtain log1 r where c: "?c = (log1, r)" by (cases ?c)
    show ?thesis
    proof (cases r)
      case (Inl h)
      then show ?thesis
        using less.prems(1) binary_search_halt [OF False c [unfolded Inl]] by simp
    next
      case (Inr b)
      obtain ok tok where b: "b = (ok, tok)" by (cases b)
      have lx: "lexed_with_end L tu cend tok"
        using consider_next_candidate_lexed [OF c [unfolded Inr] less.prems(2)] b by simp
      show ?thesis
      proof (cases ok)
        case True
        have c': "?c = (log1, Inr (True, tok))" using c Inr b True by simp
        show ?thesis
          using less.IH [OF mid _ lx, of lo log1] less.prems(1)
          unfolding binary_search_accept [OF False c'] by simp
      next
        case notok: False
        have less': "n - (?mid + 1) < n" using False by simp
        have c': "?c = (log1, Inr (False, tok))" using c Inr b notok by simp
        show ?thesis
          using less.IH [OF less' _ lx, of "lo + (?mid + 1)" log1] less.prems(1)
          unfolding binary_search_reject [OF False c'] by simp
      qed
    qed
  qed
qed

lemma binary_search_returns:
  "tu \<noteq> 0 \<Longrightarrow> \<exists>log' tok'. binary_search L tu file cend lo n cand log = (log', Inr tok')"
proof (induction n arbitrary: lo cand log rule: less_induct)
  case (less n)
  show ?case
  proof (cases "n = 0")
    case True
    then show ?thesis by simp
  next
    case False
    let ?mid = "n div 2"
    obtain log1 ok tok where
      c: "consider_next_candidate L tu file cend cand (lo + ?mid) log = (log1, Inr (ok, tok))"
      using consider_next_candidate_returns [OF less.prems, of L "file" cend cand "lo + ?mid" log]
      by auto
    show ?thesis
    proof (cases ok)
      case True
      have mid: "?mid < n" using False by simp
      have c': "consider_next_candidate L tu file cend cand (lo + ?mid) log =
                  (log1, Inr (True, tok))"
        using c True by simp
      show ?thesis
        unfolding binary_search_accept [OF False c'] by (rule less.IH [OF mid less.prems])
    next
      case notok: False
      have less': "n - (?mid + 1) < n" using False by simp
      have c': "consider_next_candidate L tu file cend cand (lo + ?mid) log =
                  (log1, Inr (False, tok))"
        using c notok by simp
      show ?thesis
        unfolding binary_search_reject [OF False c'] by (rule less.IH [OF less' less.prems])
    qed
  qed
qed


lemma str_length_le: "length (takeWhile (\<lambda>c. \<not> isspace c) (rev (take p buf))) \<le> p"
  by (rule le_trans [OF length_takeWhile_le]) simp

lemma run_start_space:
  assumes "p \<le> length buf" "0 < run_start buf p"
  shows "isspace (buf ! (run_start buf p - 1))"
proof -
  let ?xs = "rev (take p buf)"
  let ?n = "length (takeWhile (\<lambda>c. \<not> isspace c) ?xs)"
  have len: "length ?xs = p" using assms(1) by simp
  have n: "?n < p" using assms(2) str_length_le [of p buf] by (simp add: run_start_def)
  then have "\<not> \<not> isspace (?xs ! ?n)"
    using nth_length_takeWhile [of "\<lambda>c. \<not> isspace c" ?xs] len by simp
  moreover have "?xs ! ?n = buf ! (p - Suc ?n)"
    using n assms(1) by (simp add: rev_nth)
  ultimately show ?thesis by (simp add: run_start_def)
qed


lemma step2_empty:
  "length (takeWhile (\<lambda>c. \<not> isspace c) (rev (take p buf))) = 0 \<Longrightarrow>
   step2 L tu file buf cend p cand log = (log, Inr cand)"
  by (simp add: step2_def)

lemma step2_accept:
  assumes "length (takeWhile (\<lambda>c. \<not> isspace c) (rev (take p buf))) \<noteq> 0"
    and "consider_next_candidate L tu file cend cand (run_start buf p) log =
           (log', Inr (True, tok))"
  shows "step2 L tu file buf cend p cand log = (log', Inr tok)"
  using assms by (simp add: step2_def run_start_def Let_def)

lemma step2_reject:
  assumes "length (takeWhile (\<lambda>c. \<not> isspace c) (rev (take p buf))) \<noteq> 0"
    and "consider_next_candidate L tu file cend cand (run_start buf p) log =
           (log', Inr (False, tok))"
  shows "step2 L tu file buf cend p cand log =
         binary_search L tu file cend (run_start buf p + 1)
           (length (takeWhile (\<lambda>c. \<not> isspace c) (rev (take p buf))) - 1) tok log'"
  using assms by (simp add: step2_def run_start_def Let_def)

lemma step2_halt:
  assumes "length (takeWhile (\<lambda>c. \<not> isspace c) (rev (take p buf))) \<noteq> 0"
    and "consider_next_candidate L tu file cend cand (run_start buf p) log = (log', Inl h)"
  shows "step2 L tu file buf cend p cand log = (log', Inl h)"
  using assms by (simp add: step2_def run_start_def Let_def)

lemma run_end:
  "length (takeWhile (\<lambda>c. \<not> isspace c) (rev (take p buf))) \<noteq> 0 \<Longrightarrow>
   run_start buf p + 1 + (length (takeWhile (\<lambda>c. \<not> isspace c) (rev (take p buf))) - 1) = p"
  using str_length_le [of p buf] unfolding run_start_def by arith

lemma step2_returns:
  assumes tu: "tu \<noteq> 0"
  shows "\<exists>log' tok'. step2 L tu file buf cend p cand log = (log', Inr tok')"
proof (cases "length (takeWhile (\<lambda>c. \<not> isspace c) (rev (take p buf))) = 0")
  case True
  then show ?thesis by (simp add: step2_empty)
next
  case False
  obtain log1 ok tok where
    c: "consider_next_candidate L tu file cend cand (run_start buf p) log = (log1, Inr (ok, tok))"
    using consider_next_candidate_returns [OF tu, of L "file" cend cand "run_start buf p" log]
    by auto
  show ?thesis
  proof (cases ok)
    case True
    have c': "consider_next_candidate L tu file cend cand (run_start buf p) log =
                (log1, Inr (True, tok))"
      using c True by simp
    show ?thesis unfolding step2_accept [OF False c'] by simp
  next
    case notok: False
    have c': "consider_next_candidate L tu file cend cand (run_start buf p) log =
                (log1, Inr (False, tok))"
      using c notok by simp
    show ?thesis
      unfolding step2_reject [OF False c'] by (rule binary_search_returns [OF tu])
  qed
qed


lemma step2_queries:
  "set (queries (fst (step2 L tu file buf cend p cand log)))
     \<subseteq> set (queries log) \<union> probe L tu file ` {..< p}"
proof -
  let ?n = "length (takeWhile (\<lambda>c. \<not> isspace c) (rev (take p buf)))"
  let ?w = "run_start buf p"
  let ?c = "consider_next_candidate L tu file cend cand ?w log"
  let ?goal = "set (queries log) \<union> probe L tu file ` {..< p}"
  show ?thesis
  proof (cases "?n = 0")
    case True
    then show ?thesis by (simp add: step2_empty)
  next
    case False
    have w: "?w < p" using False str_length_le [of p buf] unfolding run_start_def by arith
    obtain log' r where c: "?c = (log', r)" by (cases ?c)
    have "queries log' = queries log @ [probe L tu file ?w]"
      using consider_next_candidate_queries [of L tu "file" cend cand ?w log] c by simp
    then have new: "set (queries log') \<subseteq> ?goal" using w by auto
    show ?thesis
    proof (cases r)
      case (Inl h)
      show ?thesis unfolding step2_halt [OF False c [unfolded Inl]] using new by simp
    next
      case (Inr b)
      obtain ok tok where b: "b = (ok, tok)" by (cases b)
      show ?thesis
      proof (cases ok)
        case True
        have c': "?c = (log', Inr (True, tok))" using c Inr b True by simp
        show ?thesis unfolding step2_accept [OF False c'] using new by simp
      next
        case notok: False
        have c': "?c = (log', Inr (False, tok))" using c Inr b notok by simp
        have "{?w + 1 ..< ?w + 1 + (?n - 1)} \<subseteq> {..< p}"
          unfolding run_end [OF False] by auto
        then show ?thesis
          unfolding step2_reject [OF False c']
          using binary_search_queries [of L tu "file" cend "?w + 1" "?n - 1" tok log'] new
          by blast
      qed
    qed
  qed
qed


lemma step2_lexed:
  assumes "step2 L tu file buf cend p cand log = (log', Inr tok')"
    and lx: "lexed_with_end L tu cend cand"
  shows "lexed_with_end L tu cend tok'"
proof -
  let ?n = "length (takeWhile (\<lambda>c. \<not> isspace c) (rev (take p buf)))"
  let ?c = "consider_next_candidate L tu file cend cand (run_start buf p) log"
  show ?thesis
  proof (cases "?n = 0")
    case True
    then show ?thesis using assms by (simp add: step2_empty)
  next
    case False
    obtain log1 r where c: "?c = (log1, r)" by (cases ?c)
    show ?thesis
    proof (cases r)
      case (Inl h)
      then show ?thesis using assms(1) step2_halt [OF False c [unfolded Inl]] by simp
    next
      case (Inr b)
      obtain ok tok where b: "b = (ok, tok)" by (cases b)
      have lt: "lexed_with_end L tu cend tok"
        using consider_next_candidate_lexed [OF c [unfolded Inr] lx] b by simp
      show ?thesis
      proof (cases ok)
        case True
        have c': "?c = (log1, Inr (True, tok))" using c Inr b True by simp
        show ?thesis using assms(1) lt unfolding step2_accept [OF False c'] by simp
      next
        case notok: False
        have c': "?c = (log1, Inr (False, tok))" using c Inr b notok by simp
        show ?thesis
          using assms(1) unfolding step2_reject [OF False c']
          by (rule binary_search_lexed [OF _ lt])
      qed
    qed
  qed
qed

section \<open>The reverse step as a whole\<close>

text \<open>\<^verbatim>\<open>operator--()\<close> past its assertions: step 1, then step 2, then the assignment.\<close>

lemma operator_dec_unfold:
  assumes "holds_at L c tok file S buf" "file \<noteq> 0" "0 < S" "S < length buf"
  shows "operator_dec L c =
     (case step1 L (deleter_tu c) file buf (clang_getRangeEnd (extent L c tok)) S None [] of
        (log, Inl h) \<Rightarrow> (log, Inl h)
      | (log, Inr (p, cand, cend)) \<Rightarrow>
          (case step2 L (deleter_tu c) file buf cend p cand log of
             (log', Inl h) \<Rightarrow> (log', Inl h)
           | (log', Inr found) \<Rightarrow>
               (case token_deleter (deleter_tu c) (Some tok) log' of
                  (log'', Inl h) \<Rightarrow> (log'', Inl h)
                | (log'', Inr u) \<Rightarrow>
                    (log'', Inr \<lparr>m_tok = Some found, deleter_tu = deleter_tu c\<rparr>))))"
  using assms by (simp add: operator_dec_def holds_at_def Let_def)

lemma operator_dec_queries:
  assumes h: "holds_at L c tok file S buf"
  shows "set (queries (fst (operator_dec L c))) \<subseteq> probe L (deleter_tu c) file ` {..< S} \<and>
         (queries (fst (operator_dec L c)) \<noteq> [] \<longrightarrow> S < length buf)"
proof (cases "file \<noteq> 0 \<and> 0 < S \<and> S < length buf")
  case False
  then show ?thesis using assms
    by (auto simp: operator_dec_def holds_at_def Let_def)
next
  case True
  then have f: "file \<noteq> 0" and S0: "0 < S" and Slen: "S < length buf" by simp_all
  let ?tu = "deleter_tu c"
  let ?E = "clang_getRangeEnd (extent L c tok)"
  let ?goal = "probe L ?tu file ` {..< S}"
  have le: "S \<le> length buf" using Slen by simp
  obtain log r where s1: "step1 L ?tu file buf ?E S None [] = (log, r)"
    by (cases "step1 L ?tu file buf ?E S None []")
  have l1: "set (queries log) \<subseteq> ?goal"
    using step1_queries [OF le, of L ?tu "file" ?E None "[]"] s1 by simp
  note unf = operator_dec_unfold [OF h f S0 Slen, unfolded s1]
  show ?thesis
  proof (cases r)
    case (Inl e)
    then show ?thesis using unf l1 Slen by simp
  next
    case (Inr t)
    obtain p cand cend where t: "t = (p, cand, cend)" by (cases t)
    obtain log' r' where s2: "step2 L ?tu file buf cend p cand log = (log', r')"
      by (cases "step2 L ?tu file buf cend p cand log")
    have s1': "step1 L ?tu file buf ?E S None [] = (log, Inr (p, cand, cend))"
      using s1 Inr t by simp
    have "p < S" using step1_lexed [OF s1'] by simp
    moreover have "set (queries log') \<subseteq> set (queries log) \<union> probe L ?tu file ` {..< p}"
      using step2_queries [of L ?tu "file" buf cend p cand log] s2 by simp
    ultimately have l2: "set (queries log') \<subseteq> ?goal" using l1 by auto
    have l3: "set (queries (fst (token_deleter ?tu (Some tok) log'))) \<subseteq> ?goal"
      using l2 by (simp add: token_deleter_queries)
    show ?thesis
    proof (cases r')
      case (Inl e)
      then show ?thesis using unf Inr t s2 l2 Slen by simp
    next
      case (Inr found)
      obtain log'' r'' where d: "token_deleter ?tu (Some tok) log' = (log'', r'')"
        by (cases "token_deleter ?tu (Some tok) log'")
      then have "set (queries log'') \<subseteq> ?goal" using l3 by simp
      then show ?thesis using unf \<open>r = Inr t\<close> t s2 Inr d Slen by (cases r'') simp_all
    qed
  qed
qed

lemma operator_dec_lexed:
  assumes "operator_dec L c = (log, Inr c')"
  shows "deleter_tu c \<noteq> 0 \<and> deleter_tu c' = deleter_tu c \<and>
         (\<exists>tok tok' end_loc. m_tok c = Some tok \<and> m_tok c' = Some tok'
            \<and> lexed_with_end L (deleter_tu c) end_loc tok')"
proof (cases "m_tok c")
  case None
  then show ?thesis using assms by (simp add: operator_dec_def)
next
  case (Some tok)
  let ?tu = "deleter_tu c"
  let ?E = "clang_getRangeEnd (extent L c tok)"
  obtain file' S where
    sp: "clang_getSpellingLocation L (clang_getRangeStart (extent L c tok)) = (file', S)"
    by (cases "clang_getSpellingLocation L (clang_getRangeStart (extent L c tok))")
  show ?thesis
  proof (cases "clang_getFileContents L ?tu file'")
    case None
    then show ?thesis using assms Some sp
      by (simp add: operator_dec_def Let_def split: if_splits)
  next
    case (Some buf)
    have h: "holds_at L c tok file' S buf"
      using \<open>m_tok c = Some tok\<close> sp Some by (simp add: holds_at_def)
    have pre: "file' \<noteq> 0 \<and> 0 < S \<and> S < length buf"
      using assms h by (auto simp: operator_dec_def holds_at_def Let_def split: if_splits)
    then have f: "file' \<noteq> 0" and S0: "0 < S" and Slen: "S < length buf" by simp_all
    obtain l r where s1: "step1 L ?tu file' buf ?E S None [] = (l, r)"
      by (cases "step1 L ?tu file' buf ?E S None []")
    note unf = operator_dec_unfold [OF h f S0 Slen, unfolded s1]
    show ?thesis
    proof (cases r)
      case (Inl e)
      then show ?thesis using unf assms by simp
    next
      case (Inr t)
      obtain p cand cend where t: "t = (p, cand, cend)" by (cases t)
      have s1': "step1 L ?tu file' buf ?E S None [] = (l, Inr (p, cand, cend))"
        using s1 Inr t by simp
      have lx: "lexed_with_end L ?tu cend cand" using step1_lexed [OF s1'] by simp
      obtain l' r' where s2: "step2 L ?tu file' buf cend p cand l = (l', r')"
        by (cases "step2 L ?tu file' buf cend p cand l")
      show ?thesis
      proof (cases r')
        case (Inl e)
        then show ?thesis using unf \<open>r = Inr t\<close> t s2 assms by simp
      next
        case (Inr found)
        have lf: "lexed_with_end L ?tu cend found"
          using step2_lexed [OF s2 [unfolded Inr] lx] .
        obtain l'' r'' where d: "token_deleter ?tu (Some tok) l' = (l'', r'')"
          by (cases "token_deleter ?tu (Some tok) l'")
        show ?thesis
        proof (cases r'')
          case (Inl e)
          then show ?thesis using unf \<open>r = Inr t\<close> t s2 Inr d assms by simp
        next
          case (Inr u)
          have "?tu \<noteq> 0" using token_deleter_returns [OF d [unfolded Inr]] .
          moreover have "c' = \<lparr>m_tok = Some found, deleter_tu = ?tu\<rparr>"
            using unf \<open>r = Inr t\<close> t s2 \<open>r' = Inr found\<close> d Inr assms by simp
          ultimately show ?thesis using lf \<open>m_tok c = Some tok\<close> by auto
        qed
      qed
    qed
  qed
qed

section \<open>The lexer of a well-lexed file\<close>

text \<open>
  The tokens of a well-lexed file are ordered and have distinct ends, and the oracle
  returns token \<open>k\<close> for every offset from the end of token \<open>k - 1\<close> up to the end of
  token \<open>k\<close>.
\<close>

lemma tokens_from_nth:
  "tokens_from buf lo toks \<Longrightarrow> k < length toks \<Longrightarrow>
   lo \<le> fst (toks ! k) \<and> fst (toks ! k) < snd (toks ! k) \<and> snd (toks ! k) \<le> length buf
   \<and> (\<exists>q. fst (toks ! k) \<le> q \<and> q < snd (toks ! k) \<and> \<not> isspace (buf ! q))"
proof (induction toks arbitrary: lo k)
  case Nil
  then show ?case by simp
next
  case (Cons tok toks)
  show ?case
  proof (cases k)
    case 0
    then show ?thesis using Cons.prems by auto
  next
    case (Suc k')
    then have "k' < length toks" using Cons.prems by simp
    from Cons.IH [OF _ this, of "snd tok"] Cons.prems(1)
    show ?thesis using Suc by auto
  qed
qed

lemma tokens_from_ordered:
  "tokens_from buf lo toks \<Longrightarrow> j < k \<Longrightarrow> k < length toks \<Longrightarrow>
   snd (toks ! j) \<le> fst (toks ! k)"
proof (induction toks arbitrary: lo j k)
  case Nil
  then show ?case by simp
next
  case (Cons tok toks)
  obtain k' where k: "k = Suc k'" using Cons.prems(2) by (cases k) auto
  then have k': "k' < length toks" using Cons.prems by simp
  have rest: "tokens_from buf (snd tok) toks" using Cons.prems(1) by simp
  show ?case
  proof (cases j)
    case 0
    then show ?thesis using tokens_from_nth [OF rest k'] k by simp
  next
    case (Suc j')
    then show ?thesis using Cons.IH [OF rest _ k', of j'] Cons.prems(2) k by simp
  qed
qed

lemma well_lexed_nth:
  assumes "well_lexed buf toks" "k < length toks"
  shows "fst (toks ! k) < snd (toks ! k)" "snd (toks ! k) \<le> length buf"
    "\<exists>q. fst (toks ! k) \<le> q \<and> q < snd (toks ! k) \<and> \<not> isspace (buf ! q)"
  using tokens_from_nth [of buf 0 toks k] assms by (simp_all add: well_lexed_def)

lemma well_lexed_ordered:
  assumes "well_lexed buf toks" "j < k" "k < length toks"
  shows "snd (toks ! j) \<le> fst (toks ! k)"
  using tokens_from_ordered [of buf 0 toks j k] assms by (simp add: well_lexed_def)

lemma well_lexed_end_less:
  assumes "well_lexed buf toks" "j < k" "k < length toks"
  shows "snd (toks ! j) < snd (toks ! k)"
  using well_lexed_ordered [OF assms] well_lexed_nth(1) [OF assms(1,3)] by simp

lemma well_lexed_end_inj:
  assumes "well_lexed buf toks" "j < length toks" "k < length toks"
    "snd (toks ! j) = snd (toks ! k)"
  shows "j = k"
  using well_lexed_end_less [OF assms(1), of j k] well_lexed_end_less [OF assms(1), of k j]
        assms(2-4)
  by (metis less_irrefl nat_neq_iff)

lemma spec_lexer_getToken:
  assumes wl: "well_lexed buf toks" and k: "k < length toks"
    and lo: "k = 0 \<or> snd (toks ! (k - 1)) \<le> q" and hi: "q < snd (toks ! k)"
  shows "clang_getToken (spec_lexer buf toks) tu (main_file, q) = Some (toks ! k)"
proof -
  have "\<not> q < snd (toks ! j)" if "j < k" for j
  proof -
    have "snd (toks ! j) \<le> snd (toks ! (k - 1))"
    proof (cases "j = k - 1")
      case True
      then show ?thesis by simp
    next
      case False
      then have "j < k - 1" using that by simp
      moreover have "k - 1 < length toks" using k by simp
      ultimately have "snd (toks ! j) < snd (toks ! (k - 1))"
        by (rule well_lexed_end_less [OF wl])
      then show ?thesis by simp
    qed
    then show ?thesis using lo that by auto
  qed
  then have "find (\<lambda>tok. q < snd tok) toks = Some (toks ! k)"
    using k hi unfolding find_Some_iff by blast
  then show ?thesis by (simp add: spec_lexer_def)
qed

lemma spec_lexer_getToken_in:
  assumes "clang_getToken (spec_lexer buf toks) tu loc = Some tok"
  shows "\<exists>k < length toks. tok = toks ! k"
proof -
  have "find (\<lambda>tok. snd loc < snd tok) toks = Some tok"
    using assms by (simp add: spec_lexer_def split: if_splits)
  then show ?thesis unfolding find_Some_iff by blast
qed

lemma spec_lexer_lexed_with_end:
  assumes wl: "well_lexed buf toks" and k: "k < length toks"
    and lx: "lexed_with_end (spec_lexer buf toks) tu (main_file, snd (toks ! k)) tok"
  shows "tok = toks ! k"
proof -
  from lx obtain loc where "clang_getToken (spec_lexer buf toks) tu loc = Some tok"
    and e: "clang_getRangeEnd (clang_getTokenExtent (spec_lexer buf toks) tu tok) =
            (main_file, snd (toks ! k))"
    by (auto simp: lexed_with_end_def)
  then obtain j where j: "j < length toks" "tok = toks ! j"
    using spec_lexer_getToken_in by blast
  have "snd (toks ! j) = snd (toks ! k)"
    using e j by (simp add: spec_lexer_def clang_getRangeEnd_def)
  then have "j = k" by (rule well_lexed_end_inj [OF wl j(1) k])
  then show ?thesis using j by simp
qed

text \<open>
  On a well-lexed file the reverse step from a token that is not the first one reaches
  the token before it, and the forward step from there returns.
\<close>


lemma spec_lexer_holds_at:
  "holds_at (spec_lexer buf toks) \<lparr>m_tok = Some tok, deleter_tu = tu\<rparr> tok main_file (fst tok) buf"
  by (simp add: holds_at_def spec_lexer_def extent_def clang_getRangeStart_def)

lemma spec_lexer_dec:
  assumes wl: "well_lexed buf toks" and i0: "0 < i" and i: "i < length toks"
    and tu: "tu \<noteq> 0"
  shows "\<exists>log. operator_dec (spec_lexer buf toks) \<lparr>m_tok = Some (toks ! i), deleter_tu = tu\<rparr> =
           (log, Inr \<lparr>m_tok = Some (toks ! (i - 1)), deleter_tu = tu\<rparr>)"
proof -
  let ?L = "spec_lexer buf toks"
  let ?t = "toks ! i"
  let ?t' = "toks ! (i - 1)"
  let ?c = "\<lparr>m_tok = Some ?t, deleter_tu = tu\<rparr>"
  let ?S = "fst ?t"
  let ?E = "(main_file, snd ?t)"
  have i': "i - 1 < length toks" and ii: "i - 1 < i" using i i0 by simp_all
  have ord: "snd ?t' \<le> ?S" by (rule well_lexed_ordered [OF wl ii i])
  have t: "?S < snd ?t" "snd ?t \<le> length buf" using well_lexed_nth [OF wl i] by simp_all
  have t': "fst ?t' < snd ?t'" using well_lexed_nth [OF wl i'] by simp
  obtain q0 where q0: "fst ?t' \<le> q0" "q0 < snd ?t'" "\<not> isspace (buf ! q0)"
    using well_lexed_nth(3) [OF wl i'] by blast
  have inside: "clang_getToken ?L tu (main_file, q) = Some ?t'"
    if "fst ?t' \<le> q" "q < snd ?t'" for q
  proof (rule spec_lexer_getToken [OF wl i' _ that(2)])
    show "i - 1 = 0 \<or> snd (toks ! (i - 1 - 1)) \<le> q"
    proof (cases "i - 1 = 0")
      case True
      then show ?thesis by simp
    next
      case False
      then have "snd (toks ! (i - 1 - 1)) \<le> fst ?t'"
        using well_lexed_ordered [OF wl, of "i - 1 - 1" "i - 1"] i' by simp
      then show ?thesis using that(1) by simp
    qed
  qed
  have gap: "clang_getToken ?L tu (main_file, q) = Some ?t"
    if "snd ?t' \<le> q" "q < snd ?t" for q
    using spec_lexer_getToken [OF wl i _ that(2)] that(1) by simp
  have h: "holds_at ?L ?c ?t main_file ?S buf" by (rule spec_lexer_holds_at)
  have f: "main_file \<noteq> 0" by (simp add: main_file_def)
  have S0: "0 < ?S" using ord t' by simp
  have Slen: "?S < length buf" using t by simp
  have le: "?S \<le> length buf" using Slen by simp
  have E: "clang_getRangeEnd (extent ?L ?c ?t) = ?E"
    by (simp add: clang_getRangeEnd_def extent_def spec_lexer_def)
  have tuc: "deleter_tu ?c = tu" by simp
  have loc: "clang_getLocationForOffset ?L tu main_file q = (main_file, q)" for q
    by (simp add: spec_lexer_def)
  have ends: "clang_getRangeEnd (clang_getTokenExtent ?L tu tok) = (main_file, snd tok)" for tok
    by (simp add: spec_lexer_def clang_getRangeEnd_def)
  have q0_new: "\<not> no_new_token ?L tu main_file ?E q0"
    using inside [OF q0(1,2)] ord t(1) q0(2)
    by (simp add: no_new_token_def loc ends)
  have q0S: "q0 < ?S" using q0(2) ord by simp
  obtain log r where s1: "step1 ?L tu main_file buf ?E ?S None [] = (log, r)"
    by (cases "step1 ?L tu main_file buf ?E ?S None []")
  note char = step1_char [OF le tu, where L = ?L and ?file = main_file and E = ?E
      and held = None and acc = "[]", unfolded s1]
  note unf = operator_dec_unfold [OF h f S0 Slen, unfolded E tuc s1]
  show ?thesis
  proof (cases r)
    case (Inl e)
    then have "isspace (buf ! q0) \<or> no_new_token ?L tu main_file ?E q0"
      using char q0S by simp
    then show ?thesis using q0(3) q0_new by simp
  next
    case (Inr x)
    obtain p cand cend where x: "x = (p, cand, cend)" by (cases x)
    from char Inr x have p: "p < ?S" "\<not> isspace (buf ! p)"
        and cand: "clang_getToken ?L tu (main_file, p) = Some cand"
        and cend: "cend = (main_file, snd cand)" "cend \<noteq> ?E"
        and skip: "\<forall>q. p < q \<and> q < ?S \<longrightarrow> isspace (buf ! q) \<or> no_new_token ?L tu main_file ?E q"
      by (auto simp: loc ends)
    have "\<not> p < q0" using skip q0S q0(3) q0_new by blast
    then have pq: "fst ?t' \<le> p" using q0(1) by simp
    have "p < snd ?t'"
    proof (rule ccontr)
      assume "\<not> p < snd ?t'"
      then have "clang_getToken ?L tu (main_file, p) = Some ?t"
        using gap [of p] p(1) t(1) by simp
      then show False using cand cend by simp
    qed
    then have "cand = ?t'" using inside [OF pq] cand by simp
    then have lx: "lexed_with_end ?L tu (main_file, snd ?t') cand"
      using cand by (auto simp: lexed_with_end_def ends)
    have ce: "cend = (main_file, snd ?t')" using cend(1) \<open>cand = ?t'\<close> by simp
    obtain log' found where
      s2: "step2 ?L tu main_file buf (main_file, snd ?t') p cand log = (log', Inr found)"
      using step2_returns [OF tu, where L = ?L and ?file = main_file and buf = buf
          and cend = "(main_file, snd ?t')" and p = p and cand = cand and log = log]
      by blast
    have "found = ?t'"
      by (rule spec_lexer_lexed_with_end [OF wl i' step2_lexed [OF s2 lx]])
    then show ?thesis
      using unf Inr x ce s2 token_deleter_Some [OF tu, of ?t log'] by simp
  qed
qed

lemma spec_lexer_construct:
  assumes wl: "well_lexed buf toks" and k: "k < length toks"
  shows "construct (spec_lexer buf toks) tu (main_file, fst (toks ! k)) =
           ([GetToken tu (main_file, fst (toks ! k))],
            \<lparr>m_tok = Some (toks ! k), deleter_tu = tu\<rparr>)"
proof -
  have "k = 0 \<or> snd (toks ! (k - 1)) \<le> fst (toks ! k)"
    using well_lexed_ordered [OF wl, of "k - 1" k] k by (cases "k = 0") simp_all
  from spec_lexer_getToken [OF wl k this well_lexed_nth(1) [OF wl k]]
  show ?thesis by (simp add: construct_def)
qed

lemma spec_lexer_requery:
  assumes wl: "well_lexed buf toks" and k: "k < length toks"
  shows "requery_keeps_end (spec_lexer buf toks) \<lparr>m_tok = Some (toks ! k), deleter_tu = tu\<rparr>"
proof -
  have "k = 0 \<or> snd (toks ! (k - 1)) \<le> fst (toks ! k)"
    using well_lexed_ordered [OF wl, of "k - 1" k] k by (cases "k = 0") simp_all
  from spec_lexer_getToken [OF wl k this well_lexed_nth(1) [OF wl k], of tu]
  have "clang_getToken (spec_lexer buf toks) tu
          (clang_getRangeStart (extent (spec_lexer buf toks)
             \<lparr>m_tok = Some (toks ! k), deleter_tu = tu\<rparr> (toks ! k))) = Some (toks ! k)"
    by (simp add: clang_getRangeStart_def extent_def spec_lexer_def)
  then show ?thesis by (simp add: requery_keeps_end_def)
qed

lemma spec_lexer_inc:
  assumes wl: "well_lexed buf toks" and i0: "0 < i" and i: "i < length toks"
    and tu: "tu \<noteq> 0"
  shows "operator_inc (spec_lexer buf toks) \<lparr>m_tok = Some (toks ! (i - 1)), deleter_tu = tu\<rparr> =
           ([GetToken tu (main_file, snd (toks ! (i - 1))), DisposeTokens tu (toks ! (i - 1))],
            Inr \<lparr>m_tok = Some (toks ! i), deleter_tu = tu\<rparr>)"
proof -
  have "snd (toks ! (i - 1)) < snd (toks ! i)"
    using well_lexed_end_less [OF wl, of "i - 1" i] i0 i by simp
  from spec_lexer_getToken [OF wl i _ this, of tu]
  have "clang_getToken (spec_lexer buf toks) tu (main_file, snd (toks ! (i - 1))) = Some (toks ! i)"
    by simp
  then show ?thesis
    using tu
    by (simp add: operator_inc_def Let_def extent_def clang_getRangeEnd_def spec_lexer_def
          token_deleter_Some)
qed

section \<open>The scenarios, evaluated\<close>

lemma main_file_not_null: "main_file \<noteq> 0"
  by (simp add: main_file_def)

lemma cursor_on_tu: "deleter_tu (cursor_on tok) = 1"
  by (simp add: cursor_on_def)

lemma cursor_on_tu_not_null: "deleter_tu (cursor_on tok) \<noteq> 0"
  by (simp add: cursor_on_def)

lemma cursor_on_tok: "m_tok (cursor_on tok) = Some tok"
  by (simp add: cursor_on_def)

lemma sentinel_is_end: "is_end_sentinel (end_sentinel :: (nat \<times> nat) token_iterator)"
  by (simp add: is_end_sentinel_def end_sentinel_def)

lemma S2_holds:
  "tok \<in> set [(0, 1), (3, 4), (6, 7)] \<Longrightarrow>
   holds_at S2_lexer (cursor_on tok) tok main_file (fst tok) ''a  +  b''"
  by (simp add: holds_at_def S2_lexer_def spec_lexer_def cursor_on_def extent_def
        clang_getRangeStart_def)

lemma S2_spelling:
  "m_tok (cursor_on tok) = Some tok
   \<and> clang_getSpellingLocation S2_lexer (clang_getRangeStart (extent S2_lexer (cursor_on tok) tok))
       = (main_file, fst tok)"
  by (simp add: cursor_on_def S2_lexer_def spec_lexer_def extent_def clang_getRangeStart_def)

lemma S2_end_b: "clang_getRangeEnd (extent S2_lexer (cursor_on (6, 7)) (6, 7)) = (main_file, 7)"
  by (simp add: clang_getRangeEnd_def extent_def S2_lexer_def spec_lexer_def)

lemma S2_step1_b:
  "step1 S2_lexer 1 main_file ''a  +  b'' (main_file, 7) 6 None [] =
     ([GetToken 1 (main_file, 3)], Inr (3, (3, 4), (main_file, 4)))"
  by code_simp

lemma S2_step2_b:
  "step2 S2_lexer 1 main_file ''a  +  b'' (main_file, 4) 3 (3, 4) [GetToken 1 (main_file, 3)] =
     ([GetToken 1 (main_file, 3)], Inr (3, 4))"
  by code_simp

lemma S2_dec_b:
  "operator_dec S2_lexer (cursor_on (6, 7)) =
     ([GetToken 1 (main_file, 3), DisposeTokens 1 (6, 7)], Inr (cursor_on (3, 4)))"
  by code_simp

lemma S2_dec_plus:
  "operator_dec S2_lexer (cursor_on (3, 4)) =
     ([GetToken 1 (main_file, 0), DisposeTokens 1 (3, 4)], Inr (cursor_on (0, 1)))"
  by code_simp

lemma S2_inc_plus:
  "operator_inc S2_lexer (cursor_on (3, 4)) =
     ([GetToken 1 (main_file, 4), DisposeTokens 1 (3, 4)], Inr (cursor_on (6, 7)))"
  by code_simp

lemma S2_requery: "requery_keeps_end S2_lexer (cursor_on (3, 4))"
  by (simp add: requery_keeps_end_def cursor_on_def S2_lexer_def spec_lexer_def extent_def
        clang_getRangeStart_def clang_getRangeEnd_def)

lemma S2_clone_plus:
  "clone S2_lexer (cursor_on (3, 4)) = ([GetToken 1 (main_file, 3)], cursor_on (3, 4))"
  by (simp add: clone_def cursor_on_def S2_lexer_def spec_lexer_def extent_def
        clang_getRangeStart_def)

lemma S2_well_lexed: "well_lexed ''a  +  b'' [(0, 1), (3, 4), (6, 7)]"
  by code_simp














section \<open>Equality and the forward step\<close>

text \<open>
  C4. Two cursors that both hold a token are equal exactly when their translation units are
  the same and the end locations of the extents of their tokens are equal; two end
  sentinels are equal; an end sentinel and a cursor holding a token are never equal, in
  either order.
\<close>

theorem operator_eq_spec:
  "(\<forall>tok other_tok. m_tok c = Some tok \<and> m_tok other = Some other_tok \<longrightarrow>
      operator_eq L c other =
        (deleter_tu c = deleter_tu other \<and>
         clang_getRangeEnd (extent L c tok) = clang_getRangeEnd (extent L other other_tok)))
   \<and> (is_end_sentinel c \<longrightarrow> operator_eq L c other = is_end_sentinel other)
   \<and> (is_end_sentinel other \<longrightarrow> operator_eq L c other = is_end_sentinel c)"
  by (auto simp: operator_eq_def is_end_sentinel_def clang_equalLocations_def
           split: option.splits)

theorem operator_eq_spec_witness:
  "m_tok (cursor_on (3, 4)) = Some (3, 4)
   \<and> operator_eq S2_lexer (cursor_on (3, 4)) (cursor_on (3, 4))
   \<and> \<not> operator_eq S2_lexer (cursor_on (3, 4)) (cursor_on (6, 7))
   \<and> is_end_sentinel (end_sentinel :: (nat \<times> nat) token_iterator)
   \<and> operator_eq S2_lexer end_sentinel end_sentinel
   \<and> \<not> operator_eq S2_lexer end_sentinel (cursor_on (3, 4))
   \<and> \<not> operator_eq S2_lexer (cursor_on (3, 4)) end_sentinel"
  using operator_eq_spec [of "cursor_on (3, 4)" "cursor_on (3, 4)" S2_lexer]
        operator_eq_spec [of "cursor_on (3, 4)" "cursor_on (6, 7)" S2_lexer]
        operator_eq_spec [of end_sentinel end_sentinel S2_lexer]
        operator_eq_spec [of end_sentinel "cursor_on (3, 4)" S2_lexer]
        operator_eq_spec [of "cursor_on (3, 4)" end_sentinel S2_lexer]
  by (simp add: cursor_on_def end_sentinel_def is_end_sentinel_def S2_lexer_def spec_lexer_def
        extent_def clang_getRangeEnd_def)

text \<open>
  C5. The forward step on a cursor that holds a token, under a translation unit that is not
  null, makes exactly one query, for the token at the end location \<open>E\<close> of the extent of
  the current token, releases the current token and returns normally: the cursor then
  holds what the lexer returned, under the same translation unit. When the lexer returned
  a token the cursor holds it; when the lexer returned none the cursor is the end
  sentinel, and this is a normal return, not a halt.
\<close>

theorem operator_inc_spec:
  "\<forall>tok. m_tok c = Some tok \<and> deleter_tu c \<noteq> 0 \<longrightarrow>
     (let E = clang_getRangeEnd (extent L c tok) in
        operator_inc L c =
          ([GetToken (deleter_tu c) E, DisposeTokens (deleter_tu c) tok],
           Inr \<lparr>m_tok = clang_getToken L (deleter_tu c) E, deleter_tu = deleter_tu c\<rparr>)
        \<and> (\<forall>next_tok. clang_getToken L (deleter_tu c) E = Some next_tok \<longrightarrow>
              (\<exists>c'. snd (operator_inc L c) = Inr c' \<and> m_tok c' = Some next_tok))
        \<and> (clang_getToken L (deleter_tu c) E = None \<longrightarrow>
              (\<exists>c'. snd (operator_inc L c) = Inr c' \<and> is_end_sentinel c')))"
  by (auto simp: operator_inc_def is_end_sentinel_def Let_def token_deleter_Some
           split: option.splits)

theorem operator_inc_spec_witness:
  "m_tok (cursor_on (3, 4)) = Some (3, 4) \<and> deleter_tu (cursor_on (3, 4)) \<noteq> 0
   \<and> operator_inc S2_lexer (cursor_on (3, 4)) =
       ([GetToken 1 (main_file, 4), DisposeTokens 1 (3, 4)], Inr (cursor_on (6, 7)))
   \<and> m_tok (cursor_on (6, 7)) = Some (6, 7) \<and> deleter_tu (cursor_on (6, 7)) \<noteq> 0
   \<and> operator_inc S2_lexer (cursor_on (6, 7)) =
       ([GetToken 1 (main_file, 7), DisposeTokens 1 (6, 7)],
        Inr \<lparr>m_tok = None, deleter_tu = 1\<rparr>)"
  using operator_inc_spec [of "cursor_on (3, 4)" S2_lexer]
        operator_inc_spec [of "cursor_on (6, 7)" S2_lexer]
  by (simp add: cursor_on_def S2_lexer_def spec_lexer_def extent_def clang_getRangeEnd_def
        main_file_def)

section \<open>The round trip\<close>

text \<open>
  C1. In a well-lexed file, under a translation unit that is not null, for every token \<open>t\<close>
  that is not the first one: the cursor constructed at the start location of \<open>t\<close> holds
  \<open>t\<close>; one reverse step returns normally with a cursor on the token before \<open>t\<close>; one
  forward step from there returns normally with a cursor that \<^verbatim>\<open>operator==\<close> finds equal
  to the original one.
\<close>

theorem round_trip:
  assumes wl: "well_lexed buf toks" and i0: "0 < i" and i: "i < length toks"
    and tu: "tu \<noteq> 0"
  shows "\<exists>c log c' log' c''.
           c = snd (construct (spec_lexer buf toks) tu (main_file, fst (toks ! i)))
           \<and> m_tok c = Some (toks ! i)
           \<and> operator_dec (spec_lexer buf toks) c = (log, Inr c')
           \<and> m_tok c' = Some (toks ! (i - 1))
           \<and> operator_inc (spec_lexer buf toks) c' = (log', Inr c'')
           \<and> operator_eq (spec_lexer buf toks) c'' c"
proof -
  let ?L = "spec_lexer buf toks"
  let ?c = "\<lparr>m_tok = Some (toks ! i), deleter_tu = tu\<rparr>"
  let ?c' = "\<lparr>m_tok = Some (toks ! (i - 1)), deleter_tu = tu\<rparr>"
  let ?log' = "[GetToken tu (main_file, snd (toks ! (i - 1))), DisposeTokens tu (toks ! (i - 1))]"
  have c: "snd (construct ?L tu (main_file, fst (toks ! i))) = ?c"
    using spec_lexer_construct [OF wl i, of tu] by simp
  obtain log where dec: "operator_dec ?L ?c = (log, Inr ?c')"
    using spec_lexer_dec [OF wl i0 i tu] by blast
  have inc: "operator_inc ?L ?c' = (?log', Inr ?c)"
    by (rule spec_lexer_inc [OF wl i0 i tu])
  have eq: "operator_eq ?L ?c ?c"
    by (simp add: operator_eq_def is_end_sentinel_def clang_equalLocations_def)
  show ?thesis
    unfolding c using dec inc eq
    by (intro exI [of _ ?c] exI [of _ log] exI [of _ ?c'] exI [of _ ?log']) simp
qed

theorem round_trip_witness:
  "well_lexed ''a  +  b'' [(0, 1), (3, 4), (6, 7)]
   \<and> (0::nat) < 2 \<and> 2 < length [(0::nat, 1::nat), (3, 4), (6, 7)] \<and> (1::nat) \<noteq> 0
   \<and> (\<exists>c log c' log' c''.
         c = snd (construct S2_lexer 1 (main_file, 6))
         \<and> m_tok c = Some (6, 7)
         \<and> operator_dec S2_lexer c = (log, Inr c')
         \<and> m_tok c' = Some (3, 4)
         \<and> operator_inc S2_lexer c' = (log', Inr c'')
         \<and> operator_eq S2_lexer c'' c)"
proof -
  have p: "(0::nat) < 2" by simp
  have l: "2 < length [(0::nat, 1::nat), (3, 4), (6, 7)]" by simp
  have t: "(1::nat) \<noteq> 0" by simp
  from round_trip [OF S2_well_lexed p l t]
  have "\<exists>c log c' log' c''.
         c = snd (construct S2_lexer 1 (main_file, 6))
         \<and> m_tok c = Some (6, 7)
         \<and> operator_dec S2_lexer c = (log, Inr c')
         \<and> m_tok c' = Some (3, 4)
         \<and> operator_inc S2_lexer c' = (log', Inr c'')
         \<and> operator_eq S2_lexer c'' c"
    by (simp add: S2_lexer_def)
  then show ?thesis using S2_well_lexed by simp
qed

section \<open>The reverse step: step 2\<close>




section \<open>The reverse step: step 1\<close>

text \<open>
  C3. For a cursor on a token that starts at offset \<open>S\<close> of its file and ends at \<open>E\<close>, past
  the assertions of the reverse step: step 1 probes downwards from offset \<open>S - 1\<close>. Its
  queries are exactly those for the bytes that are not whitespace, in decreasing order of
  offset. Either it stops at an offset \<open>p\<close> whose byte is not whitespace and for which the
  lexer returned a token whose end differs from \<open>E\<close>, every offset between \<open>p\<close> and \<open>S\<close>
  being whitespace or answered with no token or with a token that ends at \<open>E\<close>, and it
  records that token and its end, which step 2 starts from; or every offset below \<open>S\<close> is
  of that kind, and the reverse step halts on the assertion that the offset is positive.
\<close>

theorem reverse_step_phase1:
  assumes c: "holds_at L c tok file S buf" and f: "file \<noteq> 0" and S0: "0 < S"
    and Slen: "S < length buf" and tu: "deleter_tu c \<noteq> 0"
  shows "case step1 L (deleter_tu c) file buf (clang_getRangeEnd (extent L c tok)) S None [] of
      (log, Inr (p, cand, cand_end)) \<Rightarrow>
        p < S \<and> \<not> isspace (buf ! p)
        \<and> clang_getToken L (deleter_tu c) (clang_getLocationForOffset L (deleter_tu c) file p)
            = Some cand
        \<and> cand_end = clang_getRangeEnd (clang_getTokenExtent L (deleter_tu c) cand)
        \<and> cand_end \<noteq> clang_getRangeEnd (extent L c tok)
        \<and> (\<forall>q. p < q \<and> q < S \<longrightarrow>
              isspace (buf ! q)
              \<or> no_new_token L (deleter_tu c) file (clang_getRangeEnd (extent L c tok)) q)
        \<and> queries log = probes_between L (deleter_tu c) file buf p S
        \<and> (\<exists>log' found.
              step2 L (deleter_tu c) file buf cand_end p cand log = (log', Inr found)
              \<and> operator_dec L c =
                  (log' @ [DisposeTokens (deleter_tu c) tok],
                   Inr \<lparr>m_tok = Some found, deleter_tu = deleter_tu c\<rparr>))
    | (log, Inl h) \<Rightarrow>
        h = assert_offset_gt_0
        \<and> (\<forall>q. q < S \<longrightarrow>
              isspace (buf ! q)
              \<or> no_new_token L (deleter_tu c) file (clang_getRangeEnd (extent L c tok)) q)
        \<and> queries log = probes_between L (deleter_tu c) file buf 0 S
        \<and> operator_dec L c = (log, Inl assert_offset_gt_0)"
proof -
  let ?tu = "deleter_tu c"
  let ?E = "clang_getRangeEnd (extent L c tok)"
  have le: "S \<le> length buf" using Slen by simp
  obtain log r where s1: "step1 L ?tu file buf ?E S None [] = (log, r)"
    by (cases "step1 L ?tu file buf ?E S None []")
  note char = step1_char [OF le tu, where L = L and ?file = "file" and E = ?E
      and held = None and acc = "[]", unfolded s1]
  note unf = operator_dec_unfold [OF c f S0 Slen, unfolded s1]
  show ?thesis
  proof (cases r)
    case (Inl h)
    then show ?thesis unfolding s1 using char unf by simp
  next
    case (Inr x)
    obtain p cand cend where x: "x = (p, cand, cend)" by (cases x)
    obtain log' found where s2: "step2 L ?tu file buf cend p cand log = (log', Inr found)"
      using step2_returns [OF tu, where L = L and ?file = "file" and buf = buf
          and cend = cend and p = p and cand = cand and log = log]
      by blast
    have dec: "operator_dec L c =
        (log' @ [DisposeTokens ?tu tok], Inr \<lparr>m_tok = Some found, deleter_tu = ?tu\<rparr>)"
      using unf Inr x s2 token_deleter_Some [OF tu, of tok log'] by simp
    show ?thesis unfolding s1 using char Inr x s2 dec by auto
  qed
qed

theorem reverse_step_phase1_witness:
  "holds_at S2_lexer (cursor_on (6, 7)) (6, 7) main_file 6 ''a  +  b''
   \<and> main_file \<noteq> 0 \<and> (0::nat) < 6 \<and> 6 < length ''a  +  b''
   \<and> deleter_tu (cursor_on (6, 7)) \<noteq> 0
   \<and> step1 S2_lexer 1 main_file ''a  +  b'' (main_file, 7) 6 None [] =
       ([GetToken 1 (main_file, 3)], Inr (3, (3, 4), (main_file, 4)))
   \<and> queries [GetToken 1 (main_file, 3) :: (CXFile \<times> nat, nat \<times> nat) call] =
       probes_between S2_lexer 1 main_file ''a  +  b'' 3 6
   \<and> isspace (''a  +  b'' ! 4) \<and> isspace (''a  +  b'' ! 5)
   \<and> operator_dec S2_lexer (cursor_on (6, 7)) =
       ([GetToken 1 (main_file, 3), DisposeTokens 1 (6, 7)], Inr (cursor_on (3, 4)))"
proof -
  have pos: "(0::nat) < 6" by simp
  have h: "holds_at S2_lexer (cursor_on (6, 7)) (6, 7) main_file 6 ''a  +  b''"
    using S2_holds [of "(6, 7)"] by simp
  have len: "6 < length ''a  +  b''" by simp
  have sp: "isspace (''a  +  b'' ! 4)" "isspace (''a  +  b'' ! 5)" by code_simp+
  have "queries [GetToken 1 (main_file, 3) :: (CXFile \<times> nat, nat \<times> nat) call] =
        probes_between S2_lexer 1 main_file ''a  +  b'' 3 6"
    using reverse_step_phase1 [OF h main_file_not_null pos len cursor_on_tu_not_null]
    unfolding cursor_on_tu S2_end_b S2_step1_b prod.case sum.case by blast
  then show ?thesis
    using h main_file_not_null pos len S2_step1_b sp S2_dec_b
          cursor_on_tu_not_null [of "(6, 7)"]
    by blast
qed

section \<open>The preconditions of the reverse step\<close>

text \<open>
  C6. The reverse step on the end sentinel halts on \<^verbatim>\<open>assert(m_tok)\<close>. On a cursor whose
  token starts at byte offset 0 of its file it halts on \<^verbatim>\<open>assert(offset > 0)\<close> (on
  \<^verbatim>\<open>assert(file)\<close> when the file handle is null). In both cases no call is made. In
  every run from a cursor that holds a token, whether it returns or halts, each query is
  made for a byte of the file of the current token, at an offset below the start of the
  current token and inside the buffer of that file.
\<close>

theorem reverse_step_preconditions:
  "(is_end_sentinel c \<longrightarrow> operator_dec L c = ([], Inl assert_m_tok))
   \<and> (\<forall>tok file. m_tok c = Some tok
          \<and> clang_getSpellingLocation L (clang_getRangeStart (extent L c tok)) = (file, 0) \<longrightarrow>
         operator_dec L c = ([], Inl (if file = 0 then assert_file else assert_offset_gt_0)))
   \<and> (\<forall>tok file S. m_tok c = Some tok
          \<and> clang_getSpellingLocation L (clang_getRangeStart (extent L c tok)) = (file, S) \<longrightarrow>
         (\<forall>x \<in> set (queries (fst (operator_dec L c))).
            \<exists>q buf. clang_getFileContents L (deleter_tu c) file = Some buf
              \<and> q < S \<and> q < length buf \<and> x = probe L (deleter_tu c) file q))"
proof (intro conjI allI impI)
  assume "is_end_sentinel c"
  then show "operator_dec L c = ([], Inl assert_m_tok)"
    by (simp add: operator_dec_def is_end_sentinel_def split: option.splits)
next
  fix tok "file"
  assume "m_tok c = Some tok
          \<and> clang_getSpellingLocation L (clang_getRangeStart (extent L c tok)) = (file, 0)"
  then show "operator_dec L c = ([], Inl (if file = 0 then assert_file else assert_offset_gt_0))"
    by (simp add: operator_dec_def Let_def)
next
  fix tok "file" S
  assume a: "m_tok c = Some tok
          \<and> clang_getSpellingLocation L (clang_getRangeStart (extent L c tok)) = (file, S)"
  show "\<forall>x \<in> set (queries (fst (operator_dec L c))).
            \<exists>q buf. clang_getFileContents L (deleter_tu c) file = Some buf
              \<and> q < S \<and> q < length buf \<and> x = probe L (deleter_tu c) file q"
  proof (cases "clang_getFileContents L (deleter_tu c) file")
    case None
    then have "queries (fst (operator_dec L c)) = []"
      using a by (simp add: operator_dec_def Let_def)
    then show ?thesis by simp
  next
    case (Some buf)
    then have h: "holds_at L c tok file S buf" using a by (simp add: holds_at_def)
    show ?thesis
    proof
      fix x assume x: "x \<in> set (queries (fst (operator_dec L c)))"
      then have ne: "queries (fst (operator_dec L c)) \<noteq> []" by auto
      from operator_dec_queries [OF h] x ne
      obtain q where "q < S" "x = probe L (deleter_tu c) file q" "S < length buf" by auto
      then show "\<exists>q buf. clang_getFileContents L (deleter_tu c) file = Some buf
              \<and> q < S \<and> q < length buf \<and> x = probe L (deleter_tu c) file q"
        using Some by (intro exI [of _ q] exI [of _ buf]) simp
    qed
  qed
qed

theorem reverse_step_preconditions_witness:
  "is_end_sentinel (end_sentinel :: (nat \<times> nat) token_iterator)
   \<and> operator_dec S2_lexer end_sentinel = ([], Inl assert_m_tok)
   \<and> m_tok (cursor_on (0, 1)) = Some (0, 1)
   \<and> clang_getSpellingLocation S2_lexer
        (clang_getRangeStart (extent S2_lexer (cursor_on (0, 1)) (0, 1))) = (main_file, 0)
   \<and> operator_dec S2_lexer (cursor_on (0, 1)) = ([], Inl assert_offset_gt_0)
   \<and> m_tok (cursor_on (6, 7)) = Some (6, 7)
   \<and> clang_getSpellingLocation S2_lexer
        (clang_getRangeStart (extent S2_lexer (cursor_on (6, 7)) (6, 7))) = (main_file, 6)
   \<and> queries (fst (operator_dec S2_lexer (cursor_on (6, 7)))) = [probe S2_lexer 1 main_file 3]
   \<and> (\<exists>q buf. clang_getFileContents S2_lexer (deleter_tu (cursor_on (6, 7))) main_file = Some buf
          \<and> q < 6 \<and> q < length buf
          \<and> probe S2_lexer 1 main_file 3 = probe S2_lexer (deleter_tu (cursor_on (6, 7))) main_file q)"
proof -
  have a: "operator_dec S2_lexer end_sentinel = ([], Inl assert_m_tok)"
    by (rule reverse_step_preconditions
          [of end_sentinel S2_lexer, THEN conjunct1, rule_format, OF sentinel_is_end])
  have h0: "m_tok (cursor_on (0, 1)) = Some (0, 1)
      \<and> clang_getSpellingLocation S2_lexer
        (clang_getRangeStart (extent S2_lexer (cursor_on (0, 1)) (0, 1))) = (main_file, 0)"
    using S2_spelling [of "(0, 1)"] by simp
  have b: "operator_dec S2_lexer (cursor_on (0, 1)) = ([], Inl assert_offset_gt_0)"
    using reverse_step_preconditions
          [of "cursor_on (0, 1)" S2_lexer, THEN conjunct2, THEN conjunct1, rule_format, OF h0]
    by (simp add: main_file_not_null)
  have h6: "m_tok (cursor_on (6, 7)) = Some (6, 7)
      \<and> clang_getSpellingLocation S2_lexer
        (clang_getRangeStart (extent S2_lexer (cursor_on (6, 7)) (6, 7))) = (main_file, 6)"
    using S2_spelling [of "(6, 7)"] by simp
  have pr: "probe S2_lexer 1 main_file 3 = (1, (main_file, 3))"
    by (simp add: probe_def S2_lexer_def spec_lexer_def)
  have l: "queries (fst (operator_dec S2_lexer (cursor_on (6, 7)))) = [probe S2_lexer 1 main_file 3]"
    unfolding S2_dec_b pr by simp
  have x: "probe S2_lexer 1 main_file 3
             \<in> set (queries (fst (operator_dec S2_lexer (cursor_on (6, 7)))))"
    unfolding l by simp
  note c = reverse_step_preconditions
          [of "cursor_on (6, 7)" S2_lexer, THEN conjunct2, THEN conjunct2, rule_format, OF h6 x]
  show ?thesis
    by (intro conjI)
       (rule sentinel_is_end a h0 [THEN conjunct1] h0 [THEN conjunct2] b
             h6 [THEN conjunct1] h6 [THEN conjunct2] l c)+
qed

section \<open>Copies\<close>

text \<open>
  C7. The copy constructor returns the clone of the cursor copied, and copy assignment
  stores it. The clone of the end sentinel is the end sentinel, and no query is made. The
  clone of a cursor that holds a token is obtained by one query to the lexer, for the
  token at the start location of the extent of that token, under the same translation
  unit: the token of the copy is the lexer's answer to a query of its own, and the token
  of the original is not released. Copy assignment then releases the token that the
  assigned cursor held, if any. When the lexer answers the query with a token that has the
  same end, the copy and the original are equal for \<^verbatim>\<open>operator==\<close>.
\<close>

theorem copy_spec:
  "(is_end_sentinel c \<longrightarrow> copy_construct L c = ([], end_sentinel))
   \<and> (\<forall>tok. m_tok c = Some tok \<longrightarrow>
        (let start = clang_getRangeStart (extent L c tok) in
         copy_construct L c =
           ([GetToken (deleter_tu c) start],
            \<lparr>m_tok = clang_getToken L (deleter_tu c) start, deleter_tu = deleter_tu c\<rparr>)))
   \<and> (is_end_sentinel this \<longrightarrow>
        copy_assign L this c = (fst (copy_construct L c), Inr (snd (copy_construct L c))))
   \<and> (\<forall>old. m_tok this = Some old \<and> deleter_tu this \<noteq> 0 \<longrightarrow>
        copy_assign L this c =
          (fst (copy_construct L c) @ [DisposeTokens (deleter_tu this) old],
           Inr (snd (copy_construct L c))))
   \<and> (requery_keeps_end L c \<longrightarrow>
        operator_eq L (snd (copy_construct L c)) c \<and> operator_eq L c (snd (copy_construct L c)))"
proof (intro conjI allI impI)
  assume "requery_keeps_end L c"
  then show "operator_eq L (snd (copy_construct L c)) c"
    and "operator_eq L c (snd (copy_construct L c))"
    by (auto simp: copy_construct_def clone_def is_end_sentinel_def end_sentinel_def
          requery_keeps_end_def operator_eq_def clang_equalLocations_def extent_def Let_def
          split: option.splits)
qed (auto simp: copy_construct_def copy_assign_def clone_def is_end_sentinel_def
       token_deleter_Some Let_def split: option.splits)

theorem copy_spec_witness:
  "is_end_sentinel (end_sentinel :: (nat \<times> nat) token_iterator)
   \<and> copy_construct S2_lexer end_sentinel = ([], end_sentinel)
   \<and> copy_construct S2_lexer (cursor_on (3, 4)) = ([GetToken 1 (main_file, 3)], cursor_on (3, 4))
   \<and> copy_assign S2_lexer end_sentinel (cursor_on (3, 4)) =
       ([GetToken 1 (main_file, 3)], Inr (cursor_on (3, 4)))
   \<and> m_tok (cursor_on (6, 7)) = Some (6, 7) \<and> deleter_tu (cursor_on (6, 7)) \<noteq> 0
   \<and> copy_assign S2_lexer (cursor_on (6, 7)) (cursor_on (3, 4)) =
       ([GetToken 1 (main_file, 3), DisposeTokens 1 (6, 7)], Inr (cursor_on (3, 4)))
   \<and> requery_keeps_end S2_lexer (cursor_on (3, 4))
   \<and> operator_eq S2_lexer (snd (copy_construct S2_lexer (cursor_on (3, 4)))) (cursor_on (3, 4))"
proof -
  note s = copy_spec [of end_sentinel S2_lexer end_sentinel, THEN conjunct1, rule_format,
                      OF sentinel_is_end]
  have cc: "copy_construct S2_lexer (cursor_on (3, 4)) =
            ([GetToken 1 (main_file, 3)], cursor_on (3, 4))"
    unfolding copy_construct_def by (rule S2_clone_plus)
  note a0 = copy_spec [of "cursor_on (3, 4)" S2_lexer end_sentinel, THEN conjunct2,
                       THEN conjunct2, THEN conjunct1, rule_format, OF sentinel_is_end,
                       unfolded cc fst_conv snd_conv]
  have old: "m_tok (cursor_on (6, 7)) = Some (6, 7) \<and> deleter_tu (cursor_on (6, 7)) \<noteq> 0"
    by (simp add: cursor_on_def)
  note a1 = copy_spec [of "cursor_on (3, 4)" S2_lexer "cursor_on (6, 7)", THEN conjunct2,
                       THEN conjunct2, THEN conjunct2, THEN conjunct1, rule_format, OF old,
                       unfolded cc fst_conv snd_conv cursor_on_tu append.simps]
  note e = copy_spec [of "cursor_on (3, 4)" S2_lexer end_sentinel, THEN conjunct2,
                      THEN conjunct2, THEN conjunct2, THEN conjunct2, rule_format,
                      OF S2_requery]
  show ?thesis
    by (intro conjI)
       (rule sentinel_is_end s cc a0 a1 old [THEN conjunct1] old [THEN conjunct2] S2_requery
             e [THEN conjunct1])+
qed

section \<open>The translation unit of a cursor\<close>

text \<open>
  C8. A cursor is a token, or none, together with one translation unit. The constructor
  stores the translation unit it was given, and the token it holds, if any, was returned
  by the lexer for that translation unit. After a forward or a reverse step that returns
  normally, the translation unit of the cursor is as before, and the token it now holds
  was returned by the lexer for that same translation unit.
\<close>

theorem translation_unit_invariant:
  "(\<forall>tu loc. deleter_tu (snd (construct L tu loc)) = tu
        \<and> (\<forall>tok. m_tok (snd (construct L tu loc)) = Some tok \<longrightarrow>
              clang_getToken L tu loc = Some tok))
   \<and> (\<forall>log c'. operator_inc L c = (log, Inr c') \<longrightarrow>
         deleter_tu c' = deleter_tu c
         \<and> (\<forall>tok'. m_tok c' = Some tok' \<longrightarrow>
               (\<exists>loc. clang_getToken L (deleter_tu c) loc = Some tok')))
   \<and> (\<forall>log c'. operator_dec L c = (log, Inr c') \<longrightarrow>
         deleter_tu c' = deleter_tu c
         \<and> (\<exists>tok' loc. m_tok c' = Some tok'
               \<and> clang_getToken L (deleter_tu c) loc = Some tok'))"
proof (intro conjI)
  show "\<forall>tu loc. deleter_tu (snd (construct L tu loc)) = tu
        \<and> (\<forall>tok. m_tok (snd (construct L tu loc)) = Some tok \<longrightarrow>
              clang_getToken L tu loc = Some tok)"
    by (simp add: construct_def)
next
  show "\<forall>log c'. operator_inc L c = (log, Inr c') \<longrightarrow>
         deleter_tu c' = deleter_tu c
         \<and> (\<forall>tok'. m_tok c' = Some tok' \<longrightarrow>
               (\<exists>loc. clang_getToken L (deleter_tu c) loc = Some tok'))"
  proof (intro allI impI)
    fix log c' assume inc: "operator_inc L c = (log, Inr c')"
    then obtain tok where tok: "m_tok c = Some tok"
      by (cases "m_tok c") (simp_all add: operator_inc_def)
    have c': "c' = c\<lparr>m_tok := clang_getToken L (deleter_tu c)
                       (clang_getRangeEnd (extent L c tok))\<rparr>"
      using inc tok by (simp add: operator_inc_def Let_def split: prod.splits sum.splits)
    then show "deleter_tu c' = deleter_tu c
         \<and> (\<forall>tok'. m_tok c' = Some tok' \<longrightarrow>
               (\<exists>loc. clang_getToken L (deleter_tu c) loc = Some tok'))"
      by auto
  qed
next
  show "\<forall>log c'. operator_dec L c = (log, Inr c') \<longrightarrow>
         deleter_tu c' = deleter_tu c
         \<and> (\<exists>tok' loc. m_tok c' = Some tok'
               \<and> clang_getToken L (deleter_tu c) loc = Some tok')"
  proof (intro allI impI)
    fix log c' assume "operator_dec L c = (log, Inr c')"
    from operator_dec_lexed [OF this]
    show "deleter_tu c' = deleter_tu c
         \<and> (\<exists>tok' loc. m_tok c' = Some tok'
               \<and> clang_getToken L (deleter_tu c) loc = Some tok')"
      by (auto simp: lexed_with_end_def)
  qed
qed

theorem translation_unit_invariant_witness:
  "operator_inc S2_lexer (cursor_on (3, 4)) =
     ([GetToken 1 (main_file, 4), DisposeTokens 1 (3, 4)], Inr (cursor_on (6, 7)))
   \<and> deleter_tu (cursor_on (6, 7)) = deleter_tu (cursor_on (3, 4))
   \<and> operator_dec S2_lexer (cursor_on (3, 4)) =
     ([GetToken 1 (main_file, 0), DisposeTokens 1 (3, 4)], Inr (cursor_on (0, 1)))
   \<and> deleter_tu (cursor_on (0, 1)) = deleter_tu (cursor_on (3, 4))
   \<and> (\<exists>tok' loc. m_tok (cursor_on (0, 1)) = Some tok'
          \<and> clang_getToken S2_lexer (deleter_tu (cursor_on (3, 4))) loc = Some tok')"
proof -
  note inc = translation_unit_invariant
      [of S2_lexer "cursor_on (3, 4)", THEN conjunct2, THEN conjunct1, rule_format,
       OF S2_inc_plus]
  note dec = translation_unit_invariant
      [of S2_lexer "cursor_on (3, 4)", THEN conjunct2, THEN conjunct2, rule_format,
       OF S2_dec_plus]
  show ?thesis
    by (intro conjI)
       (rule S2_inc_plus S2_dec_plus inc [THEN conjunct1] dec [THEN conjunct1]
             dec [THEN conjunct2])+
qed

section \<open>Scenario S2\<close>

text \<open>
  C9. The source is \<^verbatim>\<open>a  +  b\<close>, with the tokens \<^verbatim>\<open>a\<close> at offset 0, \<^verbatim>\<open>+\<close> at offset 3 and
  \<^verbatim>\<open>b\<close> at offset 6. The cursor constructed at offset 6 holds \<^verbatim>\<open>b\<close>. One reverse step
  yields the cursor on \<^verbatim>\<open>+\<close> and makes one query, at offset 3; a second one yields the
  cursor on \<^verbatim>\<open>a\<close> and makes one query, at offset 0. No query is made for the space
  bytes, and each step makes at most two queries.
\<close>

theorem S2_reverse_steps:
  "construct S2_lexer 1 (main_file, 6) = ([GetToken 1 (main_file, 6)], cursor_on (6, 7))
   \<and> operator_dec S2_lexer (cursor_on (6, 7)) =
       ([GetToken 1 (main_file, 3), DisposeTokens 1 (6, 7)], Inr (cursor_on (3, 4)))
   \<and> operator_dec S2_lexer (cursor_on (3, 4)) =
       ([GetToken 1 (main_file, 0), DisposeTokens 1 (3, 4)], Inr (cursor_on (0, 1)))
   \<and> queries (fst (operator_dec S2_lexer (cursor_on (6, 7)))) = [(1, (main_file, 3))]
   \<and> queries (fst (operator_dec S2_lexer (cursor_on (3, 4)))) = [(1, (main_file, 0))]
   \<and> length (queries (fst (operator_dec S2_lexer (cursor_on (6, 7))))) \<le> 2
   \<and> length (queries (fst (operator_dec S2_lexer (cursor_on (3, 4))))) \<le> 2"
proof -
  have "construct S2_lexer 1 (main_file, 6) = ([GetToken 1 (main_file, 6)], cursor_on (6, 7))"
    by (simp add: construct_def S2_lexer_def spec_lexer_def cursor_on_def)
  then show ?thesis by (simp add: S2_dec_b S2_dec_plus)
qed

section \<open>Self-assignment\<close>

text \<open>
  C10. Copy-assigning the end sentinel to itself makes no call and leaves the end sentinel.
  Copy-assigning to itself a cursor that holds a token, under a translation unit that is
  not null, first acquires the replacement, by the query of \<^verbatim>\<open>clone()\<close> at the start of
  the extent of the token held, and only then releases the token held. When the lexer
  answers that query with a token that has the same end, the assignment returns normally
  with a cursor that holds a token, has the same translation unit, has a token with the
  same end location, and is equal to its former value for \<^verbatim>\<open>operator==\<close>.
\<close>

theorem self_assign_spec:
  "(is_end_sentinel c \<longrightarrow> copy_assign L c c = ([], Inr end_sentinel))
   \<and> (\<forall>tok. m_tok c = Some tok \<and> deleter_tu c \<noteq> 0 \<longrightarrow>
        (let start = clang_getRangeStart (extent L c tok) in
         copy_assign L c c =
           ([GetToken (deleter_tu c) start, DisposeTokens (deleter_tu c) tok],
            Inr \<lparr>m_tok = clang_getToken L (deleter_tu c) start, deleter_tu = deleter_tu c\<rparr>)))
   \<and> (\<forall>tok. m_tok c = Some tok \<and> deleter_tu c \<noteq> 0 \<and> requery_keeps_end L c \<longrightarrow>
        (\<exists>log c' tok'. copy_assign L c c = (log, Inr c')
           \<and> \<not> is_end_sentinel c'
           \<and> deleter_tu c' = deleter_tu c
           \<and> m_tok c' = Some tok'
           \<and> clang_getRangeEnd (extent L c' tok') = clang_getRangeEnd (extent L c tok)
           \<and> operator_eq L c' c))"
  by (auto simp: copy_assign_def clone_def is_end_sentinel_def token_deleter_Some
        end_sentinel_def requery_keeps_end_def operator_eq_def clang_equalLocations_def
        extent_def Let_def split: option.splits)

theorem self_assign_spec_witness:
  "m_tok (cursor_on (3, 4)) = Some (3, 4) \<and> deleter_tu (cursor_on (3, 4)) \<noteq> 0
   \<and> requery_keeps_end S2_lexer (cursor_on (3, 4))
   \<and> copy_assign S2_lexer (cursor_on (3, 4)) (cursor_on (3, 4)) =
       ([GetToken 1 (main_file, 3), DisposeTokens 1 (3, 4)], Inr (cursor_on (3, 4)))
   \<and> (\<exists>log c'. copy_assign S2_lexer (cursor_on (3, 4)) (cursor_on (3, 4)) = (log, Inr c')
          \<and> operator_eq S2_lexer c' (cursor_on (3, 4)))
   \<and> is_end_sentinel (end_sentinel :: (nat \<times> nat) token_iterator)
   \<and> copy_assign S2_lexer (end_sentinel :: (nat \<times> nat) token_iterator) end_sentinel =
       ([], Inr end_sentinel)"
proof -
  have pre: "m_tok (cursor_on (3, 4)) = Some (3, 4) \<and> deleter_tu (cursor_on (3, 4)) \<noteq> 0"
    by (simp add: cursor_on_def)
  have pre': "m_tok (cursor_on (3, 4)) = Some (3, 4) \<and> deleter_tu (cursor_on (3, 4)) \<noteq> 0
              \<and> requery_keeps_end S2_lexer (cursor_on (3, 4))"
    using pre S2_requery by simp
  have ca: "copy_assign S2_lexer (cursor_on (3, 4)) (cursor_on (3, 4)) =
            ([GetToken 1 (main_file, 3), DisposeTokens 1 (3, 4)], Inr (cursor_on (3, 4)))"
    using self_assign_spec [of "cursor_on (3, 4)" S2_lexer, THEN conjunct2, THEN conjunct1,
                            rule_format, OF pre]
    by (simp add: cursor_on_def S2_lexer_def spec_lexer_def extent_def clang_getRangeStart_def)
  from self_assign_spec [of "cursor_on (3, 4)" S2_lexer, THEN conjunct2, THEN conjunct2,
                         rule_format, OF pre']
  have eq: "\<exists>log c'. copy_assign S2_lexer (cursor_on (3, 4)) (cursor_on (3, 4)) = (log, Inr c')
          \<and> operator_eq S2_lexer c' (cursor_on (3, 4))"
    by blast
  note s = self_assign_spec [of end_sentinel S2_lexer, THEN conjunct1, rule_format,
                             OF sentinel_is_end]
  show ?thesis
    by (intro conjI)
       (rule pre [THEN conjunct1] pre [THEN conjunct2] S2_requery ca eq sentinel_is_end s)+
qed

end
